theory Spec2Isabelle
  imports Complex_Main "HOL-Library.Word"
begin

unbundle bit_operations_syntax

section \<open>Filament dryer firmware (src/src/main.cpp)\<close>

text \<open>
  The firmware is a single cooperative control loop (\<open>loop\<close>) over a handful of global
  variables, two interrupt handlers that only set flags and counters, and thin wrappers
  over the heater relay, the beeper, the display, the temperature probe and the encoder's
  analog pin.  The model threads one record of the globals and of the hardware's visible
  history through every function.  A function that can end in \<open>panic\<close> (which never
  returns) yields an \<open>outcome\<close>; a function that contains a loop whose exit depends on the
  inputs yields an \<open>option\<close>, \<open>None\<close> meaning that it never returns.
\<close>

subsection \<open>Constants and types\<close>

definition ENCODER_JITTER :: "32 word" where
  "ENCODER_JITTER = 5"

definition ENCODER_TIMEOUT :: "32 word" where
  "ENCODER_TIMEOUT = 350"

definition DOT_LEN :: nat where
  "DOT_LEN = 500"

definition DASH_LEN :: nat where
  "DASH_LEN = 3 * DOT_LEN"

definition SIGN_DELAY :: nat where
  "SIGN_DELAY = DOT_LEN"

definition LETTER_DELAY :: nat where
  "LETTER_DELAY = 3 * DOT_LEN"

definition REPEAT_DELAY :: nat where
  "REPEAT_DELAY = 7 * DOT_LEN"

definition HOURS :: "32 word \<Rightarrow> 32 word" where
  "HOURS v = v * 3600"

datatype EncoderAction = NoAction | ActionNext | ActionPrev | ActionConfirm

datatype HeatingStage = Idle | PreHeating | Working

record Filament =
  name :: string
  temp :: "8 word"
  time_sec :: "32 word"

definition filaments :: "Filament list" where
  "filaments =
    [\<lparr>name = ''PLA'', temp = 45, time_sec = HOURS 6\<rparr>,
     \<lparr>name = ''ABS'', temp = 60, time_sec = HOURS 4\<rparr>,
     \<lparr>name = ''PETG'', temp = 65, time_sec = HOURS 4\<rparr>,
     \<lparr>name = ''TPU'', temp = 50, time_sec = HOURS 8\<rparr>,
     \<lparr>name = ''Nylon'', temp = 70, time_sec = HOURS 12\<rparr>]"

definition MIN_IDX :: nat where
  "MIN_IDX = 0"

definition MAX_IDX :: nat where
  "MAX_IDX = length filaments - 1"

text \<open>
  What the firmware does to the outside world, in the order it does it: writes to the
  heater and beeper pins, calls of \<open>delay\<close>, and the display's operations.
\<close>

datatype effect =
    HeaterPin bool
  | BeeperPin bool
  | Sleep nat
  | LcdInit
  | LcdBacklight
  | LcdClear
  | LcdHome
  | LcdCursor nat nat
  | LcdPrint string
  | LcdPrintNum nat

text \<open>
  The globals of the program (\<open>filament\<close> is a pointer into the table or \<open>NULL\<close>), and
  the hardware's side: \<open>clock\<close> is the time since start in milliseconds (\<open>millis()\<close> reads
  it modulo \<open>2^32\<close>), \<open>reads\<close> and \<open>queries\<close> count the analog samples and the probe
  conversions taken so far, \<open>trace\<close> is the history of outputs, oldest first.
\<close>

record state =
  filament :: "Filament option"
  refresh_screen :: bool
  seconds :: "32 word"
  heater_is_on :: bool
  event_on_encoder :: bool
  heating_stage :: HeatingStage
  clock :: nat
  reads :: nat
  queries :: nat
  trace :: "effect list"

text \<open>
  The inputs: the value of the \<open>n\<close>-th \<open>analogRead\<close> of the encoder pin, the value of
  the \<open>n\<close>-th \<open>getTempCByIndex\<close>, the compiler's conversion of a \<open>float\<close> to
  \<open>unsigned int\<close> (16 bits on this target; C leaves it open outside the range), and the
  milliseconds at which the pin-change and the timer interrupt fire.
\<close>

record env =
  analog :: "nat \<Rightarrow> int"
  celsius :: "nat \<Rightarrow> real"
  to_uint :: "real \<Rightarrow> 16 word"
  pcint_at :: "nat \<Rightarrow> bool"
  timer_at :: "nat \<Rightarrow> bool"

text \<open>
  \<open>DEVICE_DISCONNECTED_C\<close> comes from the probe driver's header (DallasTemperature.h),
  which is not part of the repository; no result below depends on its value.
\<close>

definition DEVICE_DISCONNECTED_C :: real where
  "DEVICE_DISCONNECTED_C = - 127"

text \<open>
  \<open>Halt reason s\<close>: \<open>panic(reason)\<close> was entered in state \<open>s\<close> (heater off, reason on
  the display) and the alarm loop runs forever.  \<open>Fault\<close>: a null \<open>filament\<close> was
  dereferenced.  \<open>Done x s\<close>: the function returned \<open>x\<close> in state \<open>s\<close>.
\<close>

datatype 'a outcome = Halt string state | Fault | Done 'a state

subsection \<open>Interrupt handlers, timer, heater, beeper, display\<close>

definition TIMER1_COMPA_vect :: "state \<Rightarrow> state" where
  "TIMER1_COMPA_vect s = s\<lparr>seconds := seconds s + 1, refresh_screen := True\<rparr>"

definition PCINT1_vect :: "state \<Rightarrow> state" where
  "PCINT1_vect s = s\<lparr>event_on_encoder := True\<rparr>"

definition millis :: "state \<Rightarrow> 32 word" where
  "millis s = word_of_nat (clock s)"

text \<open>
  One millisecond of \<open>delay\<close>: the interrupts that are due fire, then the clock advances.
  In this model time passes in \<open>delay\<close> only (sampling the pin, querying the probe and
  writing to the display take none), and interrupts are served only while the main
  program sleeps there.  Interrupts that arrive between two iterations of the main loop
  are steps of their own (\<open>reachable\<close> below).
\<close>

definition tick :: "env \<Rightarrow> state \<Rightarrow> state" where
  "tick e s =
    (let s1 = (if timer_at e (clock s) then TIMER1_COMPA_vect s else s);
         s2 = (if pcint_at e (clock s) then PCINT1_vect s1 else s1)
     in s2\<lparr>clock := clock s + 1\<rparr>)"

primrec ticks :: "env \<Rightarrow> nat \<Rightarrow> state \<Rightarrow> state" where
  "ticks e 0 s = s"
| "ticks e (Suc n) s = ticks e n (tick e s)"

definition delay :: "env \<Rightarrow> nat \<Rightarrow> state \<Rightarrow> state" where
  "delay e ms s = ticks e ms (s\<lparr>trace := trace s @ [Sleep ms]\<rparr>)"

definition reset_timer :: "state \<Rightarrow> state" where
  "reset_timer s = s\<lparr>seconds := 0, refresh_screen := False\<rparr>"

definition turn_on :: "state \<Rightarrow> state" where
  "turn_on s = s\<lparr>trace := trace s @ [HeaterPin True], heater_is_on := True\<rparr>"

definition turn_off :: "state \<Rightarrow> state" where
  "turn_off s = s\<lparr>trace := trace s @ [HeaterPin False], heater_is_on := False\<rparr>"

definition emit :: "effect list \<Rightarrow> state \<Rightarrow> state" where
  "emit os s = s\<lparr>trace := trace s @ os\<rparr>"

definition beep :: "env \<Rightarrow> nat \<Rightarrow> state \<Rightarrow> state" where
  "beep e duration s = emit [BeeperPin False] (delay e duration (emit [BeeperPin True] s))"

definition clear_screen :: "state \<Rightarrow> state" where
  "clear_screen s = emit [LcdClear, LcdHome] s"

text \<open>
  \<open>panic\<close> switches the heater off, shows the reason and then beeps S.O.S. forever: it
  never returns, so its model is the outcome \<open>Halt\<close> with the state at the start of the
  alarm loop.  \<open>sos\<close> is one round of that loop.
\<close>

definition sos :: "env \<Rightarrow> state \<Rightarrow> state" where
  "sos e s =
    delay e REPEAT_DELAY
     (delay e LETTER_DELAY (beep e DOT_LEN (delay e SIGN_DELAY (beep e DOT_LEN
       (delay e SIGN_DELAY (beep e DOT_LEN
     (delay e LETTER_DELAY (beep e DASH_LEN (delay e SIGN_DELAY (beep e DASH_LEN
       (delay e SIGN_DELAY (beep e DASH_LEN
     (delay e LETTER_DELAY (beep e DOT_LEN (delay e SIGN_DELAY (beep e DOT_LEN
       (delay e SIGN_DELAY (beep e DOT_LEN s))))))))))))))))))"

definition panic :: "string \<Rightarrow> state \<Rightarrow> 'a outcome" where
  "panic reason s =
    Halt reason
      (emit [LcdCursor 0 0, LcdPrint ''PANIC! Reason:'', LcdCursor 0 1, LcdPrint reason]
        (clear_screen (turn_off s)))"

subsection \<open>The probe\<close>

definition query_sensor :: "env \<Rightarrow> state \<Rightarrow> (8 word) outcome" where
  "query_sensor e s =
    (let v = celsius e (queries s);
         s1 = s\<lparr>queries := queries s + 1\<rparr>
     in if v = DEVICE_DISCONNECTED_C then panic ''Temp NaN.'' s1
        else let t = (ucast (to_uint e v AND 0xFF) :: 8 word)
             in if t \<le> 1 then panic ''Frozen.'' s1
                else if t \<ge> 120 then panic ''Burned.'' s1
                else Done t s1)"

subsection \<open>The stage machine\<close>

definition set_heater_state :: "8 word \<Rightarrow> state \<Rightarrow> unit outcome" where
  "set_heater_state t s =
    (case filament s of
       None \<Rightarrow> panic ''Heater state.'' s
     | Some f \<Rightarrow>
        if t > temp f then
          (let s1 = turn_off s
           in if heating_stage s1 = Idle \<or> heating_stage s1 = PreHeating
              then Done () (reset_timer (s1\<lparr>heating_stage := Working\<rparr>))
              else Done () s1)
        else
          (let s1 = turn_on s
           in if heating_stage s1 = Idle
              then Done () (reset_timer (s1\<lparr>heating_stage := PreHeating\<rparr>))
              else Done () s1))"

subsection \<open>The encoder\<close>

text \<open>
  \<open>read_action\<close> samples the pin until a sample is zero or lies in one of the three
  bands; a sample outside all of them is dropped and the next one is taken.
\<close>

partial_function (option) read_action :: "env \<Rightarrow> state \<Rightarrow> (EncoderAction \<times> state) option" where
  "read_action e s =
    (let v = analog e (reads s);
         s1 = s\<lparr>reads := reads s + 1\<rparr>
     in if v = 0 then Some (NoAction, s1)
        else if v > 840 \<and> v < 850 then Some (ActionPrev, s1)
        else if v > 690 \<and> v < 705 then Some (ActionNext, s1)
        else if v > 560 \<and> v < 610 then Some (ActionConfirm, s1)
        else read_action e s1)"

declare read_action.simps [code]

text \<open>The four loops of \<open>wait_for_action\<close>, in the order of the source.\<close>

partial_function (option) await_event :: "env \<Rightarrow> state \<Rightarrow> state option" where
  "await_event e s =
    (if \<not> event_on_encoder s then await_event e (delay e 1 s) else Some s)"

declare await_event.simps [code]

partial_function (option) await_pair ::
    "env \<Rightarrow> EncoderAction \<Rightarrow> 32 word \<Rightarrow> state \<Rightarrow> state option" where
  "await_pair e other time_begin s =
    Option.bind (read_action e s) (\<lambda>(a, s1).
      if a = other then Some s1
      else let s2 = delay e 1 s1
           in if millis s2 - time_begin > ENCODER_TIMEOUT then Some s2
              else await_pair e other time_begin s2)"

declare await_pair.simps [code]

partial_function (option) await_release :: "env \<Rightarrow> state \<Rightarrow> state option" where
  "await_release e s =
    Option.bind (read_action e s) (\<lambda>(a, s1).
      if a \<noteq> NoAction then await_release e (delay e 1 s1) else Some s1)"

declare await_release.simps [code]

definition wait_for_action :: "env \<Rightarrow> state \<Rightarrow> (EncoderAction \<times> state) option" where
  "wait_for_action e s =
    Option.bind (await_event e s) (\<lambda>s0.
    Option.bind (read_action e s0) (\<lambda>(action, s1).
      if action = NoAction then Some (NoAction, s1)
      else
        let time_begin = millis s1
        in Option.bind
             (if action = ActionPrev then await_pair e ActionNext time_begin s1 else Some s1)
             (\<lambda>s2.
           Option.bind
             (if action = ActionNext then await_pair e ActionPrev time_begin s2 else Some s2)
             (\<lambda>s3.
           Option.bind (await_release e s3) (\<lambda>s4.
             let time_diff = (if action = ActionConfirm then 0 else millis s4 - time_begin);
                 s5 = delay e (unat (time_diff * 2 + ENCODER_JITTER)) s4
             in Some (action, s5\<lparr>event_on_encoder := False\<rparr>))))))"

subsection \<open>The selection menu\<close>

definition present_filament :: "state \<Rightarrow> unit outcome" where
  "present_filament s =
    (case filament s of
       None \<Rightarrow> Fault
     | Some f \<Rightarrow>
        Done ()
          (emit [LcdCursor 0 0, LcdPrint (name f), LcdPrint '' ?   '',
                 LcdCursor 0 1, LcdPrintNum (unat (time_sec f div 3600)),
                 LcdPrint '' hours at '', LcdPrintNum (unat (temp f)),
                 LcdPrint ''*      ''] s))"

text \<open>
  \<open>filament = &(filaments[cur_idx]); present_filament();\<close>  An index past the table
  would read outside it; the menu never produces one (\<open>menu_index_in_table\<close> below).
\<close>

definition show_filament :: "nat \<Rightarrow> state \<Rightarrow> unit outcome" where
  "show_filament cur_idx s =
    (if cur_idx < length filaments
     then present_filament (s\<lparr>filament := Some (filaments ! cur_idx)\<rparr>)
     else Fault)"

text \<open>
  The two index updates of the menu's loop body, one after the other.  The index never
  leaves the table (\<open>menu_index_in_table\<close> below), so the width of \<open>size_t\<close> plays no
  part and the index is a natural number.
\<close>

definition menu_index :: "EncoderAction \<Rightarrow> nat \<Rightarrow> nat" where
  "menu_index action cur_idx =
    (let i = (if action = ActionNext
              then (if cur_idx = MAX_IDX then 0 else cur_idx + 1)
              else cur_idx)
     in if action = ActionPrev
        then (if i = MIN_IDX then MAX_IDX else i - 1)
        else i)"

partial_function (option) choose_loop :: "env \<Rightarrow> nat \<Rightarrow> state \<Rightarrow> unit outcome option" where
  "choose_loop e cur_idx s =
    Option.bind (wait_for_action e s) (\<lambda>(action, s1).
      if action = ActionConfirm then Some (Done () s1)
      else case show_filament (menu_index action cur_idx) s1 of
             Done u s2 \<Rightarrow> choose_loop e (menu_index action cur_idx) s2
           | Halt r h \<Rightarrow> Some (Halt r h)
           | Fault \<Rightarrow> Some Fault)"

declare choose_loop.simps [code]

definition choose_filament :: "env \<Rightarrow> state \<Rightarrow> unit outcome option" where
  "choose_filament e s =
    (case show_filament MIN_IDX (clear_screen s) of
       Done u s1 \<Rightarrow> choose_loop e MIN_IDX s1
     | Halt r h \<Rightarrow> Some (Halt r h)
     | Fault \<Rightarrow> Some Fault)"

subsection \<open>The display during a session\<close>

text \<open>The minutes and seconds that end both branches of \<open>update_screen\<close>.\<close>

definition print_min_sec :: "32 word \<Rightarrow> state \<Rightarrow> state" where
  "print_min_sec time_val s =
    (let mins = (ucast ((time_val mod 3600) div 60 AND 0xFF) :: 8 word);
         secs = (ucast (time_val mod 60 AND 0xFF) :: 8 word)
     in emit ((if mins < 10 then [LcdPrint ''0''] else [])
              @ [LcdPrintNum (unat mins), LcdPrint '':'']
              @ (if secs < 10 then [LcdPrint ''0''] else [])
              @ [LcdPrintNum (unat secs), LcdPrint ''      '']) s)"

definition update_screen :: "8 word \<Rightarrow> state \<Rightarrow> unit outcome" where
  "update_screen t s =
    (case filament s of
       None \<Rightarrow> Fault
     | Some f \<Rightarrow>
        let s1 = emit ([LcdCursor 0 0, LcdPrint (name f), LcdPrint '' '',
                        LcdPrintNum (unat (temp f)), LcdPrint '' / '',
                        LcdPrintNum (unat t), LcdPrint ''* '']
                       @ (if heater_is_on s then [LcdPrint ''H''] else [])
                       @ [LcdPrint ''      '', LcdCursor 0 1]) s
        in if heating_stage s1 = Working then
             (let time_val = time_sec f - seconds s1;
                  hours = (ucast (time_val div 3600 AND 0xFF) :: 8 word)
              in Done ()
                   (print_min_sec time_val
                     (emit ([LcdPrint ''ETA '']
                            @ (if hours < 10 then [LcdPrint ''0''] else [])
                            @ [LcdPrintNum (unat hours), LcdPrint '':'']) s1)))
           else
             (let s2 = emit [LcdPrint ''Preheating ''] s1;
                  time_val = seconds s2
              in if time_val \<ge> 3600 then panic ''Preheating.'' s2
                 else Done () (print_min_sec time_val s2)))"

subsection \<open>Start and main loop\<close>

definition boot :: state where
  "boot = \<lparr>filament = None, refresh_screen = False, seconds = 0, heater_is_on = False,
           event_on_encoder = False, heating_stage = Idle,
           clock = 0, reads = 0, queries = 0, trace = []\<rparr>"

text \<open>
  \<open>setup_board\<close> is the sketch's \<open>setup()\<close>.  It enables the two interrupts in its
  last lines, so none fires during its beep.  The pin modes and the timer's registers are
  left out.
\<close>

definition setup_board :: "env \<Rightarrow> state \<Rightarrow> state" where
  "setup_board e s =
    beep (e\<lparr>pcint_at := (\<lambda>t. False), timer_at := (\<lambda>t. False)\<rparr>) 250
      (emit [LcdPrint ''Hello world!'']
        (clear_screen (emit [LcdInit, LcdBacklight] (turn_off s))))"

text \<open>The first block of \<open>loop\<close>: no filament chosen yet.\<close>

definition selection :: "env \<Rightarrow> state \<Rightarrow> unit outcome option" where
  "selection e s =
    (if filament s = None then
       (case choose_filament e (turn_off s) of
          None \<Rightarrow> None
        | Some (Done u s1) \<Rightarrow>
            Some (Done ()
              ((reset_timer (clear_screen s1))\<lparr>heating_stage := Idle, refresh_screen := True\<rparr>))
        | Some (Halt r h) \<Rightarrow> Some (Halt r h)
        | Some Fault \<Rightarrow> Some Fault)
     else Some (Done () s))"

partial_function (option) await_confirm :: "env \<Rightarrow> state \<Rightarrow> state option" where
  "await_confirm e s =
    Option.bind (wait_for_action e s) (\<lambda>(a, s1).
      if a \<noteq> ActionConfirm then await_confirm e s1 else Some s1)"

declare await_confirm.simps [code]

text \<open>
  The second block of \<open>loop\<close>, entered when the drying time is over: the announcement
  (heater off, message, three beeps), then the wait for the button, then the selection
  is dropped.
\<close>

definition announce :: "env \<Rightarrow> state \<Rightarrow> state" where
  "announce e s =
    (let s1 = turn_off s;
         s2 = emit [LcdCursor 0 0, LcdPrint ''Finished!''] (clear_screen s1);
         s3 = beep e 2000 (delay e 1000 (beep e 2000 (delay e 1000 (beep e 2000 s2))))
     in emit [LcdCursor 0 1, LcdPrint ''Press any key...''] s3)"

definition completion :: "env \<Rightarrow> state \<Rightarrow> state option" where
  "completion e s =
    Option.bind (await_confirm e (announce e s)) (\<lambda>s5. Some (s5\<lparr>filament := None\<rparr>))"

text \<open>The rest of \<open>loop\<close>: measure, switch the heater, refresh the display.\<close>

definition control :: "env \<Rightarrow> state \<Rightarrow> unit outcome" where
  "control e s =
    (case query_sensor e s of
       Done t s1 \<Rightarrow>
        (case set_heater_state t s1 of
           Done u s2 \<Rightarrow>
            if refresh_screen s2 then update_screen t (s2\<lparr>refresh_screen := False\<rparr>)
            else Done () s2
         | Halt r h \<Rightarrow> Halt r h
         | Fault \<Rightarrow> Fault)
     | Halt r h \<Rightarrow> Halt r h
     | Fault \<Rightarrow> Fault)"

definition loop :: "env \<Rightarrow> state \<Rightarrow> unit outcome option" where
  "loop e s =
    (case selection e s of
       None \<Rightarrow> None
     | Some (Done u s1) \<Rightarrow>
        if heating_stage s1 = Working then
          (case filament s1 of
             None \<Rightarrow> Some Fault
           | Some f \<Rightarrow>
              if seconds s1 > time_sec f
              then map_option (Done ()) (completion e s1)
              else Some (control e s1))
        else Some (control e s1)
     | Some (Halt r h) \<Rightarrow> Some (Halt r h)
     | Some Fault \<Rightarrow> Some Fault)"

text \<open>
  The states between two calls of \<open>loop\<close>.  The interrupt handlers also run while the
  main program is busy outside \<open>delay\<close> (the probe's conversion takes most of an
  iteration), hence the two last rules.
\<close>

inductive reachable :: "env \<Rightarrow> state \<Rightarrow> bool" for e :: env where
  start: "reachable e (setup_board e boot)"
| iterate: "reachable e s \<Longrightarrow> loop e s = Some (Done () s') \<Longrightarrow> reachable e s'"
| timer: "reachable e s \<Longrightarrow> reachable e (TIMER1_COMPA_vect s)"
| pin: "reachable e s \<Longrightarrow> reachable e (PCINT1_vect s)"

subsection \<open>Observations on outcomes and traces\<close>

text \<open>
  The band a sample lies in, if any, and the decoder as the specification words it: one
  sample, \<open>NoAction\<close> for a sample outside all bands.
\<close>

definition band_of :: "int \<Rightarrow> EncoderAction option" where
  "band_of v =
    (if v = 0 then Some NoAction
     else if 840 < v \<and> v < 850 then Some ActionPrev
     else if 690 < v \<and> v < 705 then Some ActionNext
     else if 560 < v \<and> v < 610 then Some ActionConfirm
     else None)"

definition readLevel :: "int \<Rightarrow> EncoderAction" where
  "readLevel v = (case band_of v of Some a \<Rightarrow> a | None \<Rightarrow> NoAction)"

text \<open>
  \<open>polls s s'\<close>: from \<open>s\<close> to \<open>s'\<close> the program only sampled the encoder and slept.
  The selection, the heater, the stage and the probe are untouched, and the trace grows
  by sleeps only.  (The seconds counter and the two flags may change: interrupts fire.)
\<close>

definition polls :: "state \<Rightarrow> state \<Rightarrow> bool" where
  "polls s s' \<longleftrightarrow>
    filament s' = filament s \<and> heater_is_on s' = heater_is_on s \<and>
    heating_stage s' = heating_stage s \<and> queries s' = queries s \<and>
    clock s \<le> clock s' \<and> reads s \<le> reads s' \<and>
    (\<exists>ds. trace s' = trace s @ map Sleep ds)"

text \<open>
  The states at the head of the menu's loop, with the index held there: \<open>menu e s0\<close>
  holds of the state and index after the first rendering when \<open>choose_filament\<close> is
  entered in \<open>s0\<close>, and of those after every further turn that was not a press.
\<close>

inductive menu :: "env \<Rightarrow> state \<Rightarrow> nat \<Rightarrow> state \<Rightarrow> bool" for e :: env and s0 :: state where
  enter: "show_filament MIN_IDX (clear_screen s0) = Done () s1 \<Longrightarrow> menu e s0 MIN_IDX s1"
| turn: "menu e s0 i s \<Longrightarrow> wait_for_action e s = Some (a, s1) \<Longrightarrow> a \<noteq> ActionConfirm \<Longrightarrow>
         show_filament (menu_index a i) s1 = Done () s2 \<Longrightarrow> menu e s0 (menu_index a i) s2"

text \<open>No effect in the list is a write to the heater pin.\<close>

fun no_heater_cmd :: "effect list \<Rightarrow> bool" where
  "no_heater_cmd [] = True"
| "no_heater_cmd (HeaterPin b # evs) = False"
| "no_heater_cmd (ev # evs) = no_heater_cmd evs"

text \<open>What every state at the head of the menu's loop satisfies.\<close>

definition menu_inv :: "state \<Rightarrow> nat \<Rightarrow> state \<Rightarrow> bool" where
  "menu_inv s0 i s \<longleftrightarrow>
    i \<le> MAX_IDX \<and> filament s = Some (filaments ! i) \<and>
    heater_is_on s = heater_is_on s0 \<and> heating_stage s = heating_stage s0 \<and>
    queries s = queries s0 \<and>
    (\<exists>evs. trace s = trace s0 @ evs \<and> no_heater_cmd evs)"

text \<open>The level of the heater pin after a history of effects, from the level \<open>b\<close>.\<close>

fun pin_after :: "bool \<Rightarrow> effect list \<Rightarrow> bool" where
  "pin_after b [] = b"
| "pin_after b (HeaterPin x # evs) = pin_after x evs"
| "pin_after b (ev # evs) = pin_after b evs"

definition heater_pin :: "effect list \<Rightarrow> bool" where
  "heater_pin tr = pin_after False tr"

text \<open>
  The outcome is the fail-safe state with the given reason: the alarm loop was entered
  with the heater flag cleared and the heater pin low.
\<close>

definition halts_with :: "'a outcome \<Rightarrow> string \<Rightarrow> bool" where
  "halts_with r reason =
    (case r of
       Halt x h \<Rightarrow> x = reason \<and> \<not> heater_is_on h \<and> \<not> heater_pin (trace h)
     | _ \<Rightarrow> False)"

text \<open>
  The two facts about the states between iterations that the results on the main loop rest on: with
  no filament selected the stage is not \<open>PreHeating\<close> and the heater is off, and a
  preheating that has lasted an hour has its display refresh pending.
\<close>

definition between_iterations :: "state \<Rightarrow> bool" where
  "between_iterations s \<longleftrightarrow>
    (filament s = None \<longrightarrow> heating_stage s \<noteq> PreHeating \<and> \<not> heater_is_on s) \<and>
    (heating_stage s = PreHeating \<and> seconds s \<ge> 3600 \<longrightarrow> refresh_screen s)"

text \<open>
  The pairing step in terms of the samples.  \<open>heard e r j\<close> counts the samples from \<open>r\<close>
  up to but not including \<open>j\<close> that are zero or lie in a band: each of them costs the
  pairing loop one pass and one millisecond.  \<open>pair_at e other r j\<close>: sample \<open>j\<close> is the
  first one from \<open>r\<close> on in the band \<open>other\<close>, and at most 350 passes come before it.
  \<open>pair_missed e other r\<close>: no sample in the band \<open>other\<close> comes that early.
\<close>

definition heard :: "env \<Rightarrow> nat \<Rightarrow> nat \<Rightarrow> nat" where
  "heard e r j = length (filter (\<lambda>i. band_of (analog e i) \<noteq> None) [r..<j])"

definition pair_at :: "env \<Rightarrow> EncoderAction \<Rightarrow> nat \<Rightarrow> nat \<Rightarrow> bool" where
  "pair_at e other r j \<longleftrightarrow>
    r \<le> j \<and> band_of (analog e j) = Some other \<and>
    (\<forall>i\<in>{r..<j}. band_of (analog e i) \<noteq> Some other) \<and> heard e r j \<le> 350"

definition pair_missed :: "env \<Rightarrow> EncoderAction \<Rightarrow> nat \<Rightarrow> bool" where
  "pair_missed e other r \<longleftrightarrow>
    (\<forall>j\<ge>r. band_of (analog e j) = Some other \<longrightarrow> heard e r j > 350)"

text \<open>The level the pairing loop waits for after a first sample.\<close>

fun paired_level :: "EncoderAction \<Rightarrow> EncoderAction option" where
  "paired_level ActionPrev = Some ActionNext"
| "paired_level ActionNext = Some ActionPrev"
| "paired_level a = None"

text \<open>
  The states at the head of the loop in which the completion block waits for the button,
  when that loop is entered in \<open>s0\<close>: \<open>s0\<close> itself, and the state after every action
  that was not a press.
\<close>

inductive awaiting :: "env \<Rightarrow> state \<Rightarrow> state \<Rightarrow> bool" for e :: env and s0 :: state where
  arrive: "awaiting e s0 s0"
| ignore: "awaiting e s0 s \<Longrightarrow> wait_for_action e s = Some (a, s1) \<Longrightarrow> a \<noteq> ActionConfirm \<Longrightarrow>
           awaiting e s0 s1"

subsection \<open>A test bench and concrete runs\<close>

text \<open>
  A test bench for concrete runs: the pin reads the listed samples and 0 afterwards, the
  probe always reads \<open>c\<close>, the conversion truncates towards zero and wraps, the pin-change
  interrupt fires in every millisecond, and the timer is stopped.
\<close>

definition bench :: "int list \<Rightarrow> real \<Rightarrow> env" where
  "bench xs c =
    \<lparr>analog = (\<lambda>n. if n < length xs then xs ! n else 0),
     celsius = (\<lambda>n. c),
     to_uint = (\<lambda>v. word_of_int (if v < 0 then \<lceil>v\<rceil> else \<lfloor>v\<rfloor>)),
     pcint_at = (\<lambda>t. True), timer_at = (\<lambda>t. False)\<rparr>"

text \<open>Sample sequences for the encoder, each with the probe at 25 degrees.\<close>

definition off_band_then_prev :: env where
  "off_band_then_prev = bench [500, 845] 25"

definition off_band_twice_then_confirm :: env where
  "off_band_twice_then_confirm = bench [500, 1023, 600] 25"

definition press_confirm :: env where
  "press_confirm = bench [600] 25"

definition prev_then_next :: env where
  "prev_then_next = bench [845, 845, 700] 25"

definition prev_unpaired :: env where
  "prev_unpaired = bench [845] 25"

text \<open>A turn of the knob while the last entry of the table is shown.\<close>

definition next_at_last :: env where
  "next_at_last = bench [700, 845] 25"

definition at_last_entry :: state where
  "at_last_entry = (PCINT1_vect boot)\<lparr>filament := Some (filaments ! 4)\<rparr>"

text \<open>
  The end of a drying session taken on its own: the second filament (four hours) is
  selected, the stage is \<open>Working\<close>, the counter has just passed the four hours, and an
  encoder event is pending.
\<close>

definition drying_over :: state where
  "drying_over =
    \<lparr>filament = Some (filaments ! 1), refresh_screen = False, seconds = 14401,
     heater_is_on = True, event_on_encoder = True, heating_stage = Working,
     clock = 0, reads = 0, queries = 0, trace = []\<rparr>"

text \<open>The state in which the iteration that begins in \<open>drying_over\<close> returns on a press.\<close>

definition drying_confirmed :: state where
  "drying_confirmed =
    \<lparr>filament = None, refresh_screen = False, seconds = 14401,
     heater_is_on = False, event_on_encoder = False, heating_stage = Working,
     clock = 8005, reads = 2, queries = 0,
     trace = [HeaterPin False, LcdClear, LcdHome, LcdCursor 0 0, LcdPrint ''Finished!'',
              BeeperPin True, Sleep 2000, BeeperPin False, Sleep 1000,
              BeeperPin True, Sleep 2000, BeeperPin False, Sleep 1000,
              BeeperPin True, Sleep 2000, BeeperPin False,
              LcdCursor 0 1, LcdPrint ''Press any key...'', Sleep 5]\<rparr>"

text \<open>
  A whole session on the bench: the button is pressed at the menu (the first filament is
  chosen) with the probe at 50 degrees, the six hours pass, and the button is pressed
  again at the end.  \<open>session_over\<close> is the state in which the second iteration ends.
\<close>

definition hot_bench :: env where
  "hot_bench = bench [600, 0, 600] 50"

definition session_over :: state where
  "session_over =
    \<lparr>filament = None, refresh_screen = True, seconds = 21601, heater_is_on = False,
     event_on_encoder = False, heating_stage = Working, clock = 8261, reads = 4,
     queries = 1,
     trace =
       [HeaterPin False, LcdInit, LcdBacklight, LcdClear, LcdHome,
        LcdPrint ''Hello world!'', BeeperPin True, Sleep 250, BeeperPin False,
        HeaterPin False, LcdClear, LcdHome, LcdCursor 0 0, LcdPrint ''PLA'',
        LcdPrint '' ?   '', LcdCursor 0 1, LcdPrintNum 6, LcdPrint '' hours at '',
        LcdPrintNum 45, LcdPrint ''*      '', Sleep 1, Sleep 5, LcdClear, LcdHome,
        HeaterPin False,
        HeaterPin False, LcdClear, LcdHome, LcdCursor 0 0, LcdPrint ''Finished!'',
        BeeperPin True, Sleep 2000, BeeperPin False, Sleep 1000,
        BeeperPin True, Sleep 2000, BeeperPin False, Sleep 1000,
        BeeperPin True, Sleep 2000, BeeperPin False,
        LcdCursor 0 1, LcdPrint ''Press any key...'', Sleep 5]\<rparr>"

text \<open>A cold oven: the button is pressed at the menu and the probe stays at 25 degrees.\<close>

definition cold_bench :: env where
  "cold_bench = bench [600] 25"

text \<open>Two contacts of one detent with a bounce to zero between them.\<close>

definition two_contacts :: env where
  "two_contacts = bench [845, 0, 700] 25"

text \<open>
  The end of a drying session with nobody at the oven: the encoder is never touched, so
  that no pin-change interrupt fires and no event is pending.
\<close>

definition unattended :: env where
  "unattended = (bench [] 25)\<lparr>pcint_at := (\<lambda>t. False)\<rparr>"

definition drying_over_alone :: state where
  "drying_over_alone = drying_over\<lparr>event_on_encoder := False\<rparr>"

section \<open>Properties\<close>

lemma pin_after_append: "pin_after b (xs @ ys) = pin_after (pin_after b xs) ys"
  by (induction b xs rule: pin_after.induct) auto

lemma halts_with_panic: "halts_with (panic reason s) reason"
  by (simp add: halts_with_def panic_def emit_def clear_screen_def turn_off_def heater_pin_def
      pin_after_append)

subsection \<open>The stage machine\<close>

text \<open>
  C1.  With a filament selected, one evaluation of \<open>set_heater_state\<close> returns (no
  panic) and keeps the selection.  If the reading is above the filament's temperature, the
  heater is switched off, and from \<open>Idle\<close> or \<open>PreHeating\<close> the stage becomes \<open>Working\<close>
  with the seconds counter at 0; from \<open>Idle\<close> this skips \<open>PreHeating\<close>.  Otherwise the
  heater is switched on, and from \<open>Idle\<close> the stage becomes \<open>PreHeating\<close> with the
  counter at 0.  In every other case stage and counter stay as they are.
\<close>

theorem set_heater_state_transition:
  assumes "filament s = Some f"
  shows "\<exists>s'. set_heater_state t s = Done () s' \<and> filament s' = filament s \<and>
    (if t > temp f
     then trace s' = trace s @ [HeaterPin False] \<and> \<not> heater_is_on s' \<and>
          (if heating_stage s = Idle \<or> heating_stage s = PreHeating
           then heating_stage s' = Working \<and> seconds s' = 0
           else heating_stage s' = heating_stage s \<and> seconds s' = seconds s)
     else trace s' = trace s @ [HeaterPin True] \<and> heater_is_on s' \<and>
          (if heating_stage s = Idle
           then heating_stage s' = PreHeating \<and> seconds s' = 0
           else heating_stage s' = heating_stage s \<and> seconds s' = seconds s))"
  using assms
  by (simp add: set_heater_state_def turn_off_def turn_on_def reset_timer_def Let_def)

theorem set_heater_state_transition_witness:
  "filament (boot\<lparr>filament := Some (filaments ! 0)\<rparr>) = Some (filaments ! 0) \<and>
   (\<exists>s'. set_heater_state 50 (boot\<lparr>filament := Some (filaments ! 0)\<rparr>) = Done () s' \<and>
      heating_stage s' = Working \<and> seconds s' = 0 \<and> \<not> heater_is_on s' \<and>
      trace s' = [HeaterPin False])"
  using set_heater_state_transition
    [of "boot\<lparr>filament := Some (filaments ! 0)\<rparr>" "filaments ! 0" 50]
  by (auto simp: boot_def filaments_def)

subsection \<open>The probe\<close>

text \<open>
  C2.  One query of the probe, with \<open>v\<close> the value read and \<open>t\<close> its conversion to
  \<open>unsigned int\<close> cut to eight bits.  If \<open>v\<close> is the disconnect value, the outcome is the
  fail-safe state (heater off).  Otherwise, if \<open>t \<le> 1\<close> it is the fail-safe state with
  reason "Frozen.", if \<open>t \<ge> 120\<close> with reason "Burned.", and if \<open>2 \<le> t \<le> 119\<close> the
  query returns \<open>t\<close> and changes nothing but the count of queries.
\<close>

theorem query_sensor_cases:
  fixes e :: env and s :: state
  defines "v \<equiv> celsius e (queries s)"
  defines "t \<equiv> (ucast (to_uint e v AND 0xFF) :: 8 word)"
  shows "(v = DEVICE_DISCONNECTED_C \<longrightarrow> halts_with (query_sensor e s) ''Temp NaN.'') \<and>
    (v \<noteq> DEVICE_DISCONNECTED_C \<and> t \<le> 1 \<longrightarrow> halts_with (query_sensor e s) ''Frozen.'') \<and>
    (v \<noteq> DEVICE_DISCONNECTED_C \<and> t \<ge> 120 \<longrightarrow> halts_with (query_sensor e s) ''Burned.'') \<and>
    (v \<noteq> DEVICE_DISCONNECTED_C \<and> 2 \<le> t \<and> t \<le> 119 \<longrightarrow>
       query_sensor e s = Done t (s\<lparr>queries := queries s + 1\<rparr>))"
  unfolding v_def t_def
  by (auto simp: query_sensor_def Let_def halts_with_panic word_le_nat_alt)

theorem query_sensor_cases_witness:
  "query_sensor (bench [] 25) boot = Done 25 (boot\<lparr>queries := 1\<rparr>) \<and>
   halts_with (query_sensor (bench [] (- 127)) boot) ''Temp NaN.'' \<and>
   halts_with (query_sensor (bench [] 1) boot) ''Frozen.'' \<and>
   halts_with (query_sensor (bench [] 120) boot) ''Burned.''"
  using query_sensor_cases [of "bench [] 25" boot]
    query_sensor_cases [of "bench [] (- 127)" boot]
    query_sensor_cases [of "bench [] 1" boot]
    query_sensor_cases [of "bench [] 120" boot]
  by (simp add: bench_def boot_def DEVICE_DISCONNECTED_C_def)

subsection \<open>The encoder: sampling\<close>

lemma read_action_band:
  "read_action e s =
    (case band_of (analog e (reads s)) of
       Some a \<Rightarrow> Some (a, s\<lparr>reads := reads s + 1\<rparr>)
     | None \<Rightarrow> read_action e (s\<lparr>reads := reads s + 1\<rparr>))"
  by (subst read_action.simps) (simp add: band_of_def Let_def)

lemma read_action_skip:
  "band_of (analog e (reads s + k)) = Some a \<Longrightarrow>
   \<forall>j<k. band_of (analog e (reads s + j)) = None \<Longrightarrow>
   read_action e s = Some (a, s\<lparr>reads := reads s + k + 1\<rparr>)"
proof (induction k arbitrary: s)
  case 0
  then show ?case by (subst read_action_band) simp
next
  case (Suc k)
  from Suc.prems(2) have first: "band_of (analog e (reads s)) = None"
    by (metis add.right_neutral zero_less_Suc)
  let ?s = "s\<lparr>reads := reads s + 1\<rparr>"
  have "read_action e ?s = Some (a, ?s\<lparr>reads := reads ?s + k + 1\<rparr>)"
  proof (rule Suc.IH)
    show "band_of (analog e (reads ?s + k)) = Some a"
      using Suc.prems(1) by (simp add: add.commute add.left_commute)
    show "\<forall>j<k. band_of (analog e (reads ?s + j)) = None"
    proof (intro allI impI)
      fix j assume "j < k"
      then have "band_of (analog e (reads s + Suc j)) = None"
        using Suc.prems(2)[rule_format, of "Suc j"] by simp
      then show "band_of (analog e (reads ?s + j)) = None"
        by (simp add: add.commute add.left_commute)
    qed
  qed
  then show ?case
    by (subst read_action_band) (simp add: first)
qed

lemma read_action_returns:
  assumes "read_action e s = Some (a, s')"
  shows "\<exists>k. band_of (analog e (reads s + k)) = Some a \<and>
       (\<forall>j<k. band_of (analog e (reads s + j)) = None) \<and>
       s' = s\<lparr>reads := reads s + k + 1\<rparr>"
proof -
  let ?P = "\<lambda>(e::env) s y. \<exists>k. band_of (analog e (reads s + k)) = Some (fst y) \<and>
       (\<forall>j<k. band_of (analog e (reads s + j)) = None) \<and>
       snd y = s\<lparr>reads := reads s + k + 1\<rparr>"
  have "?P e s (a, s')"
  proof (rule read_action.raw_induct[where P = ?P, OF _ assms])
    fix f :: "env \<Rightarrow> state \<Rightarrow> (EncoderAction \<times> state) option" and e s y
    assume IH: "\<And>s b y. f s b = Some y \<Longrightarrow> ?P s b y"
      and body: "(let v = analog e (reads s); s1 = s\<lparr>reads := reads s + 1\<rparr>
        in if v = 0 then Some (NoAction, s1)
           else if 840 < v \<and> v < 850 then Some (ActionPrev, s1)
           else if 690 < v \<and> v < 705 then Some (ActionNext, s1)
           else if 560 < v \<and> v < 610 then Some (ActionConfirm, s1)
           else f e s1) = Some y"
    show "?P e s y"
    proof (cases "band_of (analog e (reads s))")
      case None
      then have "f e (s\<lparr>reads := reads s + 1\<rparr>) = Some y"
        using body by (auto simp: band_of_def Let_def split: if_splits)
      from IH[OF this] obtain k where
        k: "band_of (analog e (reads s + 1 + k)) = Some (fst y)"
           "\<forall>j<k. band_of (analog e (reads s + 1 + j)) = None"
           "snd y = s\<lparr>reads := reads s + 1 + k + 1\<rparr>"
        by auto
      have "\<forall>j<Suc k. band_of (analog e (reads s + j)) = None"
      proof (intro allI impI)
        fix j assume "j < Suc k"
        show "band_of (analog e (reads s + j)) = None"
        proof (cases j)
          case 0 then show ?thesis using None by simp
        next
          case (Suc i)
          with \<open>j < Suc k\<close> k(2)[rule_format, of i] show ?thesis by simp
        qed
      qed
      with k(1,3) show ?thesis
        by (intro exI[of _ "Suc k"]) simp
    next
      case (Some b)
      then have "y = (b, s\<lparr>reads := reads s + 1\<rparr>)"
        using body by (auto simp: band_of_def Let_def split: if_splits)
      with Some show ?thesis
        by (intro exI[of _ 0]) simp
    qed
  qed
  then show ?thesis by simp
qed


subsection \<open>Sleeping\<close>

lemma tick_frame [simp]:
  "filament (tick e s) = filament s" "heater_is_on (tick e s) = heater_is_on s"
  "heating_stage (tick e s) = heating_stage s" "queries (tick e s) = queries s"
  "reads (tick e s) = reads s" "trace (tick e s) = trace s"
  "clock (tick e s) = clock s + 1"
  by (simp_all add: tick_def TIMER1_COMPA_vect_def PCINT1_vect_def Let_def)

lemma tick_event:
  "event_on_encoder (tick e s) \<longleftrightarrow> event_on_encoder s \<or> pcint_at e (clock s)"
  by (simp add: tick_def TIMER1_COMPA_vect_def PCINT1_vect_def Let_def)

lemma ticks_frame [simp]:
  "filament (ticks e n s) = filament s" "heater_is_on (ticks e n s) = heater_is_on s"
  "heating_stage (ticks e n s) = heating_stage s" "queries (ticks e n s) = queries s"
  "reads (ticks e n s) = reads s" "trace (ticks e n s) = trace s"
  "clock (ticks e n s) = clock s + n"
  by (induction n arbitrary: s; simp)+

lemma ticks_event:
  "event_on_encoder (ticks e n s) \<longleftrightarrow>
    event_on_encoder s \<or> (\<exists>t. clock s \<le> t \<and> t < clock s + n \<and> pcint_at e t)"
proof (induction n arbitrary: s)
  case 0
  then show ?case by auto
next
  case (Suc n)
  have "(\<exists>t. clock s \<le> t \<and> t < clock s + Suc n \<and> pcint_at e t) \<longleftrightarrow>
        pcint_at e (clock s) \<or> (\<exists>t. clock s + 1 \<le> t \<and> t < clock s + 1 + n \<and> pcint_at e t)"
    (is "?L \<longleftrightarrow> ?R")
  proof
    assume ?L
    then obtain t where t: "clock s \<le> t" "t < clock s + Suc n" "pcint_at e t"
      by blast
    show ?R
    proof (cases "t = clock s")
      case True
      with t show ?thesis by simp
    next
      case False
      with t have "clock s + 1 \<le> t \<and> t < clock s + 1 + n \<and> pcint_at e t" by simp
      then show ?thesis by blast
    qed
  next
    assume ?R
    then show ?L
    proof
      assume "pcint_at e (clock s)"
      then have "clock s \<le> clock s \<and> clock s < clock s + Suc n \<and> pcint_at e (clock s)"
        by simp
      then show ?L by blast
    next
      assume "\<exists>t. clock s + 1 \<le> t \<and> t < clock s + 1 + n \<and> pcint_at e t"
      then obtain t where "clock s + 1 \<le> t" "t < clock s + 1 + n" "pcint_at e t" by blast
      then have "clock s \<le> t \<and> t < clock s + Suc n \<and> pcint_at e t" by simp
      then show ?L by blast
    qed
  qed
  then show ?case
    by (simp add: Suc.IH tick_event disj_assoc)
qed

lemma delay_frame [simp]:
  "filament (delay e n s) = filament s" "heater_is_on (delay e n s) = heater_is_on s"
  "heating_stage (delay e n s) = heating_stage s" "queries (delay e n s) = queries s"
  "reads (delay e n s) = reads s" "trace (delay e n s) = trace s @ [Sleep n]"
  "clock (delay e n s) = clock s + n"
  by (simp_all add: delay_def)

lemma delay_event:
  "event_on_encoder (delay e n s) \<longleftrightarrow>
    event_on_encoder s \<or> (\<exists>t. clock s \<le> t \<and> t < clock s + n \<and> pcint_at e t)"
  by (simp add: delay_def ticks_event)

lemma polls_refl [simp]: "polls s s"
  by (simp add: polls_def exI[of _ "[]"])

lemma polls_trans:
  assumes "polls s s1" and "polls s1 s2"
  shows "polls s s2"
proof -
  from assms obtain ds1 ds2 where
    "trace s1 = trace s @ map Sleep ds1" "trace s2 = trace s1 @ map Sleep ds2"
    unfolding polls_def by blast
  then have "trace s2 = trace s @ map Sleep (ds1 @ ds2)" by simp
  then have "\<exists>ds. trace s2 = trace s @ map Sleep ds" ..
  with assms show ?thesis
    unfolding polls_def by simp
qed

lemma polls_delay [simp]: "polls s (delay e n s)"
  by (simp add: polls_def exI[of _ "[n]"])

lemma polls_delay_after: "polls s s1 \<Longrightarrow> polls s (delay e n s1)"
  by (erule polls_trans) simp

lemma polls_read_action: "read_action e s = Some (a, s') \<Longrightarrow> polls s s'"
  by (drule read_action_returns) (auto simp: polls_def exI[of _ "[]"])

lemma polls_event_flag [simp]: "polls s (s1\<lparr>event_on_encoder := b\<rparr>) = polls s s1"
  by (simp add: polls_def)

lemma await_event_now: "event_on_encoder s \<Longrightarrow> await_event e s = Some s"
  by (subst await_event.simps) simp

lemma await_event_later:
  "\<not> event_on_encoder s \<Longrightarrow> await_event e s = await_event e (delay e 1 s)"
  by (subst await_event.simps) simp

lemma await_event_returns:
  assumes "await_event e s = Some s'"
  shows "polls s s' \<and> event_on_encoder s' \<and> reads s' = reads s"
proof -
  let ?P = "\<lambda>(e::env) s s'. polls s s' \<and> event_on_encoder s' \<and> reads s' = reads s"
  show ?thesis
  proof (rule await_event.raw_induct[where P = ?P, OF _ assms])
    fix f :: "env \<Rightarrow> state \<Rightarrow> state option" and e s y
    assume IH: "\<And>s b y. f s b = Some y \<Longrightarrow> ?P s b y"
      and body: "(if \<not> event_on_encoder s then f e (delay e 1 s) else Some s) = Some y"
    show "?P e s y"
    proof (cases "event_on_encoder s")
      case True
      with body show ?thesis by simp
    next
      case False
      with body have "f e (delay e 1 s) = Some y" by simp
      from IH[OF this] show ?thesis
        by (auto intro: polls_trans[OF polls_delay])
    qed
  qed
qed

lemma await_event_total:
  assumes "event_on_encoder s \<or> (\<exists>t\<ge>clock s. pcint_at e t)"
  shows "\<exists>s'. await_event e s = Some s'"
proof (cases "event_on_encoder s")
  case True
  then show ?thesis by (simp add: await_event_now)
next
  case False
  with assms obtain t where t: "clock s \<le> t" "pcint_at e t" by blast
  from t False show ?thesis
  proof (induction "t - clock s" arbitrary: s)
    case 0
    then have "t = clock s" by simp
    with 0 have "clock s \<le> t \<and> t < clock s + 1 \<and> pcint_at e t" by simp
    then have "event_on_encoder (delay e 1 s)"
      unfolding delay_event by blast
    with 0 show ?case
      by (simp add: await_event_later await_event_now)
  next
    case (Suc n)
    show ?case
    proof (cases "event_on_encoder (delay e 1 s)")
      case True
      with Suc.prems show ?thesis
        by (simp add: await_event_later await_event_now)
    next
      case False
      have "\<exists>s'. await_event e (delay e 1 s) = Some s'"
      proof (rule Suc.hyps(1))
        show "n = t - clock (delay e 1 s)" using Suc.hyps(2) by simp
        show "clock (delay e 1 s) \<le> t" using Suc.hyps(2) by simp
        show "pcint_at e t" by fact
        show "\<not> event_on_encoder (delay e 1 s)" by fact
      qed
      with Suc.prems show ?thesis
        by (simp add: await_event_later)
    qed
  qed
qed


lemma read_action_first:
  assumes "reads s \<le> k" and "band_of (analog e k) \<noteq> None"
  shows "\<exists>a j. reads s + j \<le> k \<and> band_of (analog e (reads s + j)) = Some a \<and>
           read_action e s = Some (a, s\<lparr>reads := reads s + j + 1\<rparr>)"
proof -
  define Q where "Q j \<longleftrightarrow> band_of (analog e (reads s + j)) \<noteq> None" for j
  have Qk: "Q (k - reads s)" using assms by (simp add: Q_def)
  define j where "j = (LEAST j. Q j)"
  have "Q j" unfolding j_def using Qk by (rule LeastI)
  then obtain a where a: "band_of (analog e (reads s + j)) = Some a"
    by (auto simp: Q_def)
  have le: "j \<le> k - reads s" unfolding j_def using Qk by (rule Least_le)
  have "\<forall>i<j. band_of (analog e (reads s + i)) = None"
  proof (intro allI impI)
    fix i assume "i < j"
    then have "\<not> Q i" unfolding j_def by (rule not_less_Least)
    then show "band_of (analog e (reads s + i)) = None" by (simp add: Q_def)
  qed
  with a have "read_action e s = Some (a, s\<lparr>reads := reads s + j + 1\<rparr>)"
    by (rule read_action_skip)
  moreover have "reads s + j \<le> k" using le assms(1) by simp
  ultimately show ?thesis using a by blast
qed

lemma band_of_zero [simp]: "band_of 0 = Some NoAction"
  by (simp add: band_of_def)

lemma band_of_NoAction: "band_of v = Some NoAction \<longleftrightarrow> v = 0"
  by (simp add: band_of_def)

lemma read_action_total:
  assumes "\<forall>n. \<exists>k\<ge>n. analog e k = 0"
  shows "\<exists>a s'. read_action e s = Some (a, s')"
proof -
  from assms obtain k where "reads s \<le> k" "analog e k = 0" by blast
  then have "band_of (analog e k) \<noteq> None" by simp
  from read_action_first[OF \<open>reads s \<le> k\<close> this] show ?thesis by blast
qed

lemma await_pair_returns:
  assumes "await_pair e other tb s = Some s'"
  shows "polls s s'"
proof -
  let ?P = "\<lambda>(e::env) (other::EncoderAction) (tb::32 word) s s'. polls s s'"
  show ?thesis
  proof (rule await_pair.raw_induct[where P = ?P, OF _ assms])
    fix f :: "env \<Rightarrow> EncoderAction \<Rightarrow> 32 word \<Rightarrow> state \<Rightarrow> state option"
      and e other tb s y
    assume IH: "\<And>s b c d y. f s b c d = Some y \<Longrightarrow> ?P s b c d y"
      and body: "Option.bind (read_action e s) (\<lambda>(a, s1).
          if a = other then Some s1
          else let s2 = delay e 1 s1
               in if millis s2 - tb > ENCODER_TIMEOUT then Some s2
                  else f e other tb s2) = Some y"
    from body obtain a s1 where r: "read_action e s = Some (a, s1)"
      and rest0: "(if a = other then Some s1
          else let s2 = delay e 1 s1
               in if millis s2 - tb > ENCODER_TIMEOUT then Some s2
                  else f e other tb s2) = Some y"
      by (auto simp: bind_eq_Some_conv)
    have rest: "(if a = other then Some s1
          else if millis (delay e 1 s1) - tb > ENCODER_TIMEOUT then Some (delay e 1 s1)
               else f e other tb (delay e 1 s1)) = Some y"
      using rest0 by (simp add: Let_def split: if_splits)
    have p1: "polls s s1" using r by (rule polls_read_action)
    show "polls s y"
    proof (cases "a = other")
      case True
      with rest p1 show ?thesis by simp
    next
      case False
      show ?thesis
      proof (cases "millis (delay e 1 s1) - tb > ENCODER_TIMEOUT")
        case True
        with rest False p1 show ?thesis by (auto intro: polls_delay_after)
      next
        case no: False
        with rest False have "f e other tb (delay e 1 s1) = Some y" by simp
        from IH[OF this] p1 show ?thesis
          by (blast intro: polls_trans polls_delay_after)
      qed
    qed
  qed
qed

lemma millis_since:
  assumes "k < 2 ^ 32"
  shows "(word_of_nat (cb + k) - word_of_nat cb > ENCODER_TIMEOUT) \<longleftrightarrow> k > 350"
proof -
  have "(word_of_nat (cb + k) - word_of_nat cb :: 32 word) = word_of_nat k" by simp
  moreover have "unat (word_of_nat k :: 32 word) = k"
    using assms by (simp add: unat_of_nat)
  ultimately show ?thesis
    by (simp add: ENCODER_TIMEOUT_def word_less_nat_alt)
qed

lemma await_pair_total:
  assumes zeros: "\<forall>n. \<exists>k\<ge>n. analog e k = 0"
    and "clock s = cb + k" and "k \<le> 350"
  shows "\<exists>s'. await_pair e other (word_of_nat cb) s = Some s'"
  using assms(2,3)
proof (induction "350 - k" arbitrary: s k)
  case 0
  from read_action_total[OF zeros] obtain a s1 where r: "read_action e s = Some (a, s1)"
    by blast
  have c1: "clock s1 = clock s" using polls_read_action[OF r] read_action_returns[OF r] by auto
  have "millis (delay e 1 s1) - word_of_nat cb > ENCODER_TIMEOUT"
    using millis_since[of "k + 1" cb] 0 c1 by (simp add: millis_def add.assoc)
  then show ?case
    by (subst await_pair.simps) (simp add: r Let_def)
next
  case (Suc n)
  from read_action_total[OF zeros] obtain a s1 where r: "read_action e s = Some (a, s1)"
    by blast
  have c1: "clock s1 = clock s" using read_action_returns[OF r] by auto
  have "\<exists>s'. await_pair e other (word_of_nat cb) (delay e 1 s1) = Some s'"
  proof (rule Suc.hyps(1))
    show "n = 350 - (k + 1)" using Suc.hyps(2) by simp
    show "clock (delay e 1 s1) = cb + (k + 1)" using c1 Suc.prems by simp
    show "k + 1 \<le> 350" using Suc.hyps(2) by simp
  qed
  then show ?case
    by (subst await_pair.simps) (auto simp: r Let_def)
qed

lemma await_release_returns:
  assumes "await_release e s = Some s'"
  shows "polls s s' \<and> reads s < reads s' \<and> analog e (reads s' - 1) = 0"
proof -
  let ?P = "\<lambda>(e::env) s s'. polls s s' \<and> reads s < reads s' \<and> analog e (reads s' - 1) = 0"
  show ?thesis
  proof (rule await_release.raw_induct[where P = ?P, OF _ assms])
    fix f :: "env \<Rightarrow> state \<Rightarrow> state option" and e s y
    assume IH: "\<And>s b y. f s b = Some y \<Longrightarrow> ?P s b y"
      and body: "Option.bind (read_action e s) (\<lambda>(a, s1).
          if a \<noteq> NoAction then f e (delay e 1 s1) else Some s1) = Some y"
    from body obtain a s1 where r: "read_action e s = Some (a, s1)"
      and rest: "(if a \<noteq> NoAction then f e (delay e 1 s1) else Some s1) = Some y"
      by (auto simp: bind_eq_Some_conv)
    have p1: "polls s s1" using r by (rule polls_read_action)
    from read_action_returns[OF r] obtain j where
      j: "band_of (analog e (reads s + j)) = Some a" "s1 = s\<lparr>reads := reads s + j + 1\<rparr>"
      by blast
    show "?P e s y"
    proof (cases "a = NoAction")
      case True
      with rest have "y = s1" by simp
      with p1 j True show ?thesis by (simp add: band_of_NoAction)
    next
      case False
      with rest have "f e (delay e 1 s1) = Some y" by simp
      from IH[OF this] p1 j(2) show ?thesis
        by (auto intro: polls_trans polls_delay_after)
    qed
  qed
qed

lemma await_release_total:
  assumes zeros: "\<forall>n. \<exists>k\<ge>n. analog e k = 0"
  shows "\<exists>s'. await_release e s = Some s'"
proof -
  from zeros obtain k where "reads s \<le> k" "analog e k = 0" by blast
  then show ?thesis
  proof (induction "k - reads s" arbitrary: s rule: less_induct)
    case less
    have "band_of (analog e k) \<noteq> None" using less.prems by simp
    from read_action_first[OF less.prems(1) this] obtain a j where
      j: "reads s + j \<le> k" "band_of (analog e (reads s + j)) = Some a"
         "read_action e s = Some (a, s\<lparr>reads := reads s + j + 1\<rparr>)"
      by blast
    let ?s1 = "s\<lparr>reads := reads s + j + 1\<rparr>"
    show ?case
    proof (cases "a = NoAction")
      case True
      then show ?thesis
        by (subst await_release.simps) (simp add: j(3))
    next
      case False
      have "reads s + j \<noteq> k"
        using j(2) less.prems(2) False by auto
      with j(1) have lt: "reads s + j < k" by simp
      have "\<exists>s'. await_release e (delay e 1 ?s1) = Some s'"
      proof (rule less.hyps)
        show "k - reads (delay e 1 ?s1) < k - reads s" using lt by simp
        show "reads (delay e 1 ?s1) \<le> k" using lt by simp
        show "analog e k = 0" by fact
      qed
      with False show ?thesis
        by (subst await_release.simps) (simp add: j(3))
    qed
  qed
qed

subsection \<open>The encoder: one resolved action\<close>

lemma wait_for_action_Some:
  assumes "wait_for_action e s = Some (a, s')"
  shows "\<exists>s0 s1. await_event e s = Some s0 \<and> read_action e s0 = Some (a, s1) \<and>
    (if a = NoAction then s' = s1
     else \<exists>s4. polls s1 s4 \<and> reads s1 < reads s4 \<and> analog e (reads s4 - 1) = 0 \<and>
            s' = (delay e (unat ((if a = ActionConfirm then 0 else millis s4 - millis s1) * 2
                                  + ENCODER_JITTER)) s4)\<lparr>event_on_encoder := False\<rparr>)"
proof -
  from assms obtain s0 b s1 where s0: "await_event e s = Some s0"
    and s1: "read_action e s0 = Some (b, s1)"
    and rest: "(if b = NoAction then Some (NoAction, s1)
      else
        let time_begin = millis s1
        in Option.bind
             (if b = ActionPrev then await_pair e ActionNext time_begin s1 else Some s1)
             (\<lambda>s2.
           Option.bind
             (if b = ActionNext then await_pair e ActionPrev time_begin s2 else Some s2)
             (\<lambda>s3.
           Option.bind (await_release e s3) (\<lambda>s4.
             let time_diff = (if b = ActionConfirm then 0 else millis s4 - time_begin);
                 s5 = delay e (unat (time_diff * 2 + ENCODER_JITTER)) s4
             in Some (b, s5\<lparr>event_on_encoder := False\<rparr>))))) = Some (a, s')"
    unfolding wait_for_action_def by (auto simp: bind_eq_Some_conv)
  show ?thesis
  proof (cases "b = NoAction")
    case True
    with rest s0 s1 show ?thesis by auto
  next
    case False
    with rest obtain s2 s3 s4 where
      s2: "(if b = ActionPrev then await_pair e ActionNext (millis s1) s1 else Some s1) = Some s2"
      and s3: "(if b = ActionNext then await_pair e ActionPrev (millis s1) s2 else Some s2) = Some s3"
      and s4: "await_release e s3 = Some s4"
      and fin: "a = b" "s' = (delay e (unat ((if b = ActionConfirm then 0 else millis s4 - millis s1) * 2
                                  + ENCODER_JITTER)) s4)\<lparr>event_on_encoder := False\<rparr>"
      by (auto simp: bind_eq_Some_conv Let_def)
    have p2: "polls s1 s2" using s2 by (auto split: if_splits dest: await_pair_returns)
    have p3: "polls s2 s3" using s3 by (auto split: if_splits dest: await_pair_returns)
    from await_release_returns[OF s4] have p4: "polls s3 s4" "reads s3 < reads s4"
      "analog e (reads s4 - 1) = 0" by auto
    have "polls s1 s4" using p2 p3 p4(1) by (blast intro: polls_trans)
    moreover have "reads s1 < reads s4"
      using p2 p3 p4(2) by (auto simp: polls_def)
    ultimately show ?thesis
      using s0 s1 fin False p4(3) by auto
  qed
qed

lemma wait_for_action_total:
  assumes ev: "event_on_encoder s \<or> (\<exists>t\<ge>clock s. pcint_at e t)"
    and zeros: "\<forall>n. \<exists>k\<ge>n. analog e k = 0"
  shows "\<exists>a s'. wait_for_action e s = Some (a, s')"
proof -
  from await_event_total[OF ev] obtain s0 where s0: "await_event e s = Some s0" by blast
  from read_action_total[OF zeros] obtain b s1 where s1: "read_action e s0 = Some (b, s1)"
    by blast
  have pair: "\<exists>s'. await_pair e other (millis x) x = Some s'" for other x
    using await_pair_total[OF zeros, of x "clock x" 0 other] by (simp add: millis_def)
  obtain s2 where
    s2: "(if b = ActionPrev then await_pair e ActionNext (millis s1) s1 else Some s1) = Some s2"
    using pair[of ActionNext s1] by (cases "b = ActionPrev") auto
  have c2: "clock s1 \<le> clock s2"
    using s2 by (auto split: if_splits dest!: await_pair_returns simp: polls_def)
  have "\<exists>s3. (if b = ActionNext then await_pair e ActionPrev (millis s1) s2 else Some s2) = Some s3"
  proof (cases "b = ActionNext")
    case True
    then have "s2 = s1" using s2 by simp
    with True pair[of ActionPrev s1] show ?thesis by simp
  next
    case False
    then show ?thesis by simp
  qed
  then obtain s3 where
    s3: "(if b = ActionNext then await_pair e ActionPrev (millis s1) s2 else Some s2) = Some s3"
    by blast
  from await_release_total[OF zeros] obtain s4 where s4: "await_release e s3 = Some s4"
    by blast
  show ?thesis
    unfolding wait_for_action_def
    by (cases "b = NoAction") (simp_all add: s0 s1 s2 s3 s4 Let_def)
qed

lemma wait_for_action_polls:
  assumes "wait_for_action e s = Some (a, s')"
  shows "polls s s'"
proof -
  from wait_for_action_Some[OF assms] obtain s0 s1 where
    s0: "await_event e s = Some s0" and s1: "read_action e s0 = Some (a, s1)"
    and rest: "if a = NoAction then s' = s1
     else \<exists>s4. polls s1 s4 \<and> reads s1 < reads s4 \<and> analog e (reads s4 - 1) = 0 \<and>
            s' = (delay e (unat ((if a = ActionConfirm then 0 else millis s4 - millis s1) * 2
                                  + ENCODER_JITTER)) s4)\<lparr>event_on_encoder := False\<rparr>"
    by blast
  have p01: "polls s s1"
    using await_event_returns[OF s0] polls_read_action[OF s1] by (blast intro: polls_trans)
  show ?thesis
  proof (cases "a = NoAction")
    case True
    with rest p01 show ?thesis by simp
  next
    case False
    with rest obtain s4 d where "polls s1 s4" "s' = (delay e d s4)\<lparr>event_on_encoder := False\<rparr>"
      by auto
    with p01 show ?thesis
      by (auto intro: polls_trans polls_delay_after)
  qed
qed

subsection \<open>The test bench\<close>

lemma bench_sel [simp]:
  "analog (bench xs c) n = (if n < length xs then xs ! n else 0)"
  "celsius (bench xs c) n = c"
  "pcint_at (bench xs c) t" "\<not> timer_at (bench xs c) t"
  by (simp_all add: bench_def)

lemma bench_zeros: "\<forall>n. \<exists>k\<ge>n. analog (bench xs c) k = 0"
proof
  fix n
  have "max n (length xs) \<ge> n \<and> analog (bench xs c) (max n (length xs)) = 0" by simp
  then show "\<exists>k\<ge>n. analog (bench xs c) k = 0" by blast
qed

lemma ticks_bench:
  "ticks (bench xs c) n s =
    s\<lparr>clock := clock s + n, event_on_encoder := event_on_encoder s \<or> 0 < n\<rparr>"
  by (induction n arbitrary: s) (simp_all add: tick_def PCINT1_vect_def Let_def)

lemma delay_bench:
  "delay (bench xs c) n s =
    s\<lparr>trace := trace s @ [Sleep n], clock := clock s + n,
      event_on_encoder := event_on_encoder s \<or> 0 < n\<rparr>"
  by (simp add: delay_def ticks_bench)

subsection \<open>The encoder: results\<close>

text \<open>
  C6 (as amended).  \<open>read_action\<close> does not classify one sample.  It returns the action of
  the first sample, from the current one on, that is zero or lies in a band, having
  dropped every sample before it that lies in none; zero gives \<open>NoAction\<close> and the three
  bands give \<open>ActionPrev\<close>, \<open>ActionNext\<close> and \<open>ActionConfirm\<close>.  It never returns
  exactly when no sample from the current one on is zero or in a band.
\<close>

theorem read_action_first_band:
  "(read_action e s = Some (a, s') \<longleftrightarrow>
     (\<exists>k. band_of (analog e (reads s + k)) = Some a \<and>
          (\<forall>j<k. band_of (analog e (reads s + j)) = None) \<and>
          s' = s\<lparr>reads := reads s + k + 1\<rparr>)) \<and>
   (read_action e s = None \<longleftrightarrow> (\<forall>k. band_of (analog e (reads s + k)) = None))"
proof (intro conjI iffI)
  assume "read_action e s = Some (a, s')"
  then show "\<exists>k. band_of (analog e (reads s + k)) = Some a \<and>
          (\<forall>j<k. band_of (analog e (reads s + j)) = None) \<and>
          s' = s\<lparr>reads := reads s + k + 1\<rparr>"
    by (rule read_action_returns)
next
  assume "\<exists>k. band_of (analog e (reads s + k)) = Some a \<and>
          (\<forall>j<k. band_of (analog e (reads s + j)) = None) \<and>
          s' = s\<lparr>reads := reads s + k + 1\<rparr>"
  then obtain k where "band_of (analog e (reads s + k)) = Some a"
    "\<forall>j<k. band_of (analog e (reads s + j)) = None" "s' = s\<lparr>reads := reads s + k + 1\<rparr>"
    by blast
  then show "read_action e s = Some (a, s')"
    using read_action_skip[of e s k a] by simp
next
  assume none: "read_action e s = None"
  show "\<forall>k. band_of (analog e (reads s + k)) = None"
  proof (rule ccontr)
    assume "\<not> (\<forall>k. band_of (analog e (reads s + k)) = None)"
    then obtain k where "band_of (analog e (reads s + k)) \<noteq> None" by blast
    from read_action_first[of s "reads s + k" e, OF _ this] none show False by simp
  qed
next
  assume all: "\<forall>k. band_of (analog e (reads s + k)) = None"
  show "read_action e s = None"
  proof (rule ccontr)
    assume "read_action e s \<noteq> None"
    then obtain b y where "read_action e s = Some (b, y)" by auto
    from read_action_returns[OF this] all show False by auto
  qed
qed

theorem read_action_first_band_witness:
  "read_action off_band_twice_then_confirm boot = Some (ActionConfirm, boot\<lparr>reads := 3\<rparr>)"
proof -
  have "band_of (analog off_band_twice_then_confirm (reads boot + 2)) = Some ActionConfirm \<and>
        (\<forall>j<2. band_of (analog off_band_twice_then_confirm (reads boot + j)) = None) \<and>
        boot\<lparr>reads := 3\<rparr> = boot\<lparr>reads := reads boot + 2 + 1\<rparr>"
    by (simp add: off_band_twice_then_confirm_def boot_def band_of_def less_Suc_eq
        numeral_2_eq_2)
  then show ?thesis
    using read_action_first_band
      [of off_band_twice_then_confirm boot ActionConfirm "boot\<lparr>reads := 3\<rparr>"]
    by blast
qed

text \<open>
  The specification's wording fails: a first sample of 500 lies in no band, and the call does not
  answer \<open>NoAction\<close> for it but takes a second sample and answers for that one.
\<close>

theorem read_action_single_sample_counterexample:
  "readLevel (analog off_band_then_prev (reads boot)) = NoAction \<and>
   read_action off_band_then_prev boot = Some (ActionPrev, boot\<lparr>reads := 2\<rparr>)"
  by (simp add: read_action_band off_band_then_prev_def boot_def band_of_def readLevel_def)

subsection \<open>The encoder: pairing and quiet period\<close>

lemma heard_none:
  assumes "\<forall>i. r \<le> i \<and> i < j \<longrightarrow> band_of (analog e i) = None"
  shows "heard e r j = 0"
  using assms by (simp add: heard_def filter_empty_conv)

lemma heard_skip:
  assumes "\<forall>i. r \<le> i \<and> i < i1 \<longrightarrow> band_of (analog e i) = None"
    and "band_of (analog e i1) \<noteq> None" and "r \<le> i1" and "i1 < j"
  shows "heard e r j = Suc (heard e (Suc i1) j)"
proof -
  have "[r..<j] = [r..<i1] @ i1 # [Suc i1..<j]"
    using assms(3,4) by (metis le_add_diff_inverse less_imp_le_nat upt_add_eq_append upt_conv_Cons)
  moreover have "filter (\<lambda>i. band_of (analog e i) \<noteq> None) [r..<i1] = []"
    using assms(1) by (simp add: filter_empty_conv)
  ultimately show ?thesis
    using assms(2) by (simp add: heard_def)
qed

lemma read_action_next:
  assumes "reads s \<le> k" and "band_of (analog e k) \<noteq> None"
  shows "\<exists>a i. reads s \<le> i \<and> i \<le> k \<and> band_of (analog e i) = Some a \<and>
           (\<forall>i'. reads s \<le> i' \<and> i' < i \<longrightarrow> band_of (analog e i') = None) \<and>
           read_action e s = Some (a, s\<lparr>reads := i + 1\<rparr>)"
proof -
  from read_action_first[OF assms] obtain a j where j: "reads s + j \<le> k"
    "band_of (analog e (reads s + j)) = Some a"
    "read_action e s = Some (a, s\<lparr>reads := reads s + j + 1\<rparr>)"
    by blast
  from read_action_returns[OF j(3)] obtain j' where j':
    "\<forall>i<j'. band_of (analog e (reads s + i)) = None"
    "s\<lparr>reads := reads s + j + 1\<rparr> = s\<lparr>reads := reads s + j' + 1\<rparr>"
    by blast
  from j'(2) have "reads (s\<lparr>reads := reads s + j + 1\<rparr>) = reads (s\<lparr>reads := reads s + j' + 1\<rparr>)"
    by (rule arg_cong)
  then have "j' = j" by simp
  have "\<forall>i'. reads s \<le> i' \<and> i' < reads s + j \<longrightarrow> band_of (analog e i') = None"
  proof (intro allI impI)
    fix i' assume "reads s \<le> i' \<and> i' < reads s + j"
    then have "i' - reads s < j'" "reads s + (i' - reads s) = i'"
      using \<open>j' = j\<close> by arith+
    with j'(1) show "band_of (analog e i') = None" by metis
  qed
  with j show ?thesis
    by (intro exI[of _ a] exI[of _ "reads s + j"]) simp
qed

lemma millis_after:
  assumes "clock x = cb + k" and "k \<le> 351"
  shows "(millis x - word_of_nat cb > ENCODER_TIMEOUT) \<longleftrightarrow> k > 350"
  using millis_since[of k cb] assms by (simp add: millis_def)

lemma await_pair_finds:
  assumes "reads s \<le> j" and "band_of (analog e j) = Some other"
    and "\<forall>i. reads s \<le> i \<and> i < j \<longrightarrow> band_of (analog e i) \<noteq> Some other"
    and "heard e (reads s) j + k \<le> 350" and "clock s = cb + k"
  shows "\<exists>s'. await_pair e other (word_of_nat cb) s = Some s' \<and>
           reads s' = j + 1 \<and> clock s' = clock s + heard e (reads s) j"
  using assms
proof (induction "j - reads s" arbitrary: s k rule: less_induct)
  case less
  have "band_of (analog e j) \<noteq> None" using less.prems(2) by simp
  from read_action_next[OF less.prems(1) this] obtain a i where i: "reads s \<le> i" "i \<le> j"
    "band_of (analog e i) = Some a"
    "\<forall>i'. reads s \<le> i' \<and> i' < i \<longrightarrow> band_of (analog e i') = None"
    "read_action e s = Some (a, s\<lparr>reads := i + 1\<rparr>)"
    by blast
  let ?s1 = "s\<lparr>reads := i + 1\<rparr>"
  show ?case
  proof (cases "i = j")
    case True
    with i(3) less.prems(2) have "a = other" by simp
    moreover have "heard e (reads s) j = 0"
      using i(4) True by (intro heard_none) simp
    ultimately show ?thesis
      using True by (subst await_pair.simps) (simp add: i(5))
  next
    case False
    with i(2) have lt: "i < j" by simp
    have ne: "a \<noteq> other" using less.prems(3) i(1,3) lt by auto
    have h: "heard e (reads s) j = Suc (heard e (Suc i) j)"
      using i(4) _ i(1) lt by (rule heard_skip) (simp add: i(3))
    let ?s2 = "delay e 1 ?s1"
    have c2: "clock ?s2 = cb + (k + 1)" using less.prems(5) by simp
    have "k + 1 \<le> 350" using less.prems(4) h by simp
    then have no: "\<not> millis ?s2 - word_of_nat cb > ENCODER_TIMEOUT"
      using millis_after[OF c2] by simp
    have "\<exists>s'. await_pair e other (word_of_nat cb) ?s2 = Some s' \<and>
           reads s' = j + 1 \<and> clock s' = clock ?s2 + heard e (reads ?s2) j"
    proof (rule less.hyps)
      show "j - reads ?s2 < j - reads s" using i(1) lt by simp
      show "reads ?s2 \<le> j" using lt by simp
      show "band_of (analog e j) = Some other" by fact
      show "\<forall>i'. reads ?s2 \<le> i' \<and> i' < j \<longrightarrow> band_of (analog e i') \<noteq> Some other"
        using less.prems(3) i(1) by simp
      show "heard e (reads ?s2) j + (k + 1) \<le> 350" using less.prems(4) h by simp
      show "clock ?s2 = cb + (k + 1)" by fact
    qed
    then obtain s' where s': "await_pair e other (word_of_nat cb) ?s2 = Some s'"
      "reads s' = j + 1" "clock s' = clock ?s2 + heard e (reads ?s2) j"
      by blast
    have "await_pair e other (word_of_nat cb) s = Some s'"
      using ne no s'(1) by (subst await_pair.simps) (simp add: i(5) Let_def)
    moreover have "clock s' = clock s + heard e (reads s) j"
      using s'(3) h by simp
    ultimately show ?thesis using s'(2) by blast
  qed
qed

lemma await_pair_times_out:
  assumes zeros: "\<forall>n. \<exists>k\<ge>n. analog e k = 0"
    and "clock s = cb + k" and "k \<le> 350"
    and "\<forall>j\<ge>reads s. band_of (analog e j) = Some other \<longrightarrow> heard e (reads s) j + k > 350"
  shows "\<exists>s'. await_pair e other (word_of_nat cb) s = Some s' \<and> reads s \<le> reads s' \<and>
           clock s' = cb + 351 \<and> heard e (reads s) (reads s') = 351 - k"
  using assms(2-4)
proof (induction "350 - k" arbitrary: s k rule: less_induct)
  case less
  from zeros obtain z where z: "reads s \<le> z" "analog e z = 0" by blast
  then have "band_of (analog e z) \<noteq> None" by simp
  from read_action_next[OF z(1) this] obtain a i where i: "reads s \<le> i"
    "band_of (analog e i) = Some a"
    "\<forall>i'. reads s \<le> i' \<and> i' < i \<longrightarrow> band_of (analog e i') = None"
    "read_action e s = Some (a, s\<lparr>reads := i + 1\<rparr>)"
    by blast
  let ?s1 = "s\<lparr>reads := i + 1\<rparr>"
  let ?s2 = "delay e 1 ?s1"
  have h0: "heard e (reads s) i = 0" using i(3) by (rule heard_none)
  have ne: "a \<noteq> other"
  proof
    assume "a = other"
    with i(1,2) less.prems(3) have "heard e (reads s) i + k > 350" by simp
    with h0 less.prems(2) show False by simp
  qed
  have h1: "heard e (reads s) (Suc i) = 1"
    using heard_skip[OF i(3) _ i(1), of "Suc i"] i(2) by (simp add: heard_def)
  have c2: "clock ?s2 = cb + (k + 1)" using less.prems(1) by simp
  show ?case
  proof (cases "k = 350")
    case True
    then have "millis ?s2 - word_of_nat cb > ENCODER_TIMEOUT"
      using millis_after[OF c2] by simp
    then have "await_pair e other (word_of_nat cb) s = Some ?s2"
      using ne by (subst await_pair.simps) (simp add: i(4) Let_def)
    with True c2 h1 i(1) show ?thesis by simp
  next
    case False
    with less.prems(2) have k: "k + 1 \<le> 350" by simp
    then have no: "\<not> millis ?s2 - word_of_nat cb > ENCODER_TIMEOUT"
      using millis_after[OF c2] by simp
    have step: "heard e (reads s) j = Suc (heard e (Suc i) j)" if "Suc i \<le> j" for j
      using that i(1,2,3) by (intro heard_skip) auto
    have "\<exists>s'. await_pair e other (word_of_nat cb) ?s2 = Some s' \<and> reads ?s2 \<le> reads s' \<and>
           clock s' = cb + 351 \<and> heard e (reads ?s2) (reads s') = 351 - (k + 1)"
    proof (rule less.hyps)
      show "350 - (k + 1) < 350 - k" using k by simp
      show "clock ?s2 = cb + (k + 1)" by fact
      show "k + 1 \<le> 350" by fact
      show "\<forall>j\<ge>reads ?s2. band_of (analog e j) = Some other \<longrightarrow>
          heard e (reads ?s2) j + (k + 1) > 350"
      proof (intro allI impI)
        fix j assume j: "reads ?s2 \<le> j" "band_of (analog e j) = Some other"
        then have "heard e (reads s) j + k > 350" using less.prems(3) i(1) by simp
        with step[of j] j(1) show "heard e (reads ?s2) j + (k + 1) > 350" by simp
      qed
    qed
    then obtain s' where s': "await_pair e other (word_of_nat cb) ?s2 = Some s'"
      "reads ?s2 \<le> reads s'" "clock s' = cb + 351"
      "heard e (reads ?s2) (reads s') = 351 - (k + 1)"
      by blast
    have "await_pair e other (word_of_nat cb) s = Some s'"
      using ne no s'(1) by (subst await_pair.simps) (simp add: i(4) Let_def)
    moreover have "heard e (reads s) (reads s') = 351 - k"
      using step[of "reads s'"] s'(2,4) k by simp
    moreover have "reads s \<le> reads s'" using s'(2) i(1) by simp
    ultimately show ?thesis using s'(3) by blast
  qed
qed


lemma heard_mono: "j \<le> j' \<Longrightarrow> heard e r j \<le> heard e r j'"
proof (cases "r \<le> j")
  case True
  assume "j \<le> j'"
  with True have "[r..<j'] = [r..<j] @ [j..<j']"
    by (metis le_add_diff_inverse upt_add_eq_append)
  then show ?thesis by (simp add: heard_def)
next
  case False
  then show ?thesis by (simp add: heard_def)
qed

lemma pairing_cases: "pair_missed e other r \<or> (\<exists>j. pair_at e other r j)"
proof (cases "pair_missed e other r")
  case True
  then show ?thesis ..
next
  case False
  then obtain j where j: "r \<le> j" "band_of (analog e j) = Some other" "heard e r j \<le> 350"
    by (auto simp: pair_missed_def not_less)
  define Q where "Q i \<longleftrightarrow> r \<le> i \<and> band_of (analog e i) = Some other" for i
  define j0 where "j0 = (LEAST i. Q i)"
  have Qj: "Q j" using j by (simp add: Q_def)
  have "Q j0" unfolding j0_def using Qj by (rule LeastI)
  have "j0 \<le> j" unfolding j0_def using Qj by (rule Least_le)
  have "\<forall>i\<in>{r..<j0}. band_of (analog e i) \<noteq> Some other"
  proof
    fix i assume "i \<in> {r..<j0}"
    then have "i < j0" "r \<le> i" by simp_all
    from not_less_Least[OF this(1)[unfolded j0_def]] this(2)
    show "band_of (analog e i) \<noteq> Some other" by (simp add: Q_def)
  qed
  moreover have "heard e r j0 \<le> 350"
    using heard_mono[OF \<open>j0 \<le> j\<close>, of e r] j(3) by simp
  ultimately have "pair_at e other r j0"
    using \<open>Q j0\<close> by (simp add: pair_at_def Q_def)
  then show ?thesis by blast
qed

lemma wait_for_action_phases:
  assumes "wait_for_action e s = Some (a, s')" and "a \<noteq> NoAction"
  shows "\<exists>s0 s1 s3 s4. await_event e s = Some s0 \<and> read_action e s0 = Some (a, s1) \<and>
    (case paired_level a of Some other \<Rightarrow> await_pair e other (millis s1) s1
                          | None \<Rightarrow> Some s1) = Some s3 \<and>
    await_release e s3 = Some s4 \<and>
    s' = (delay e (unat ((if a = ActionConfirm then 0 else millis s4 - millis s1) * 2
                          + ENCODER_JITTER)) s4)\<lparr>event_on_encoder := False\<rparr>"
proof -
  from assms obtain s0 s1 where s0: "await_event e s = Some s0"
    and s1: "read_action e s0 = Some (a, s1)"
    and rest: "Option.bind
             (if a = ActionPrev then await_pair e ActionNext (millis s1) s1 else Some s1)
             (\<lambda>s2.
           Option.bind
             (if a = ActionNext then await_pair e ActionPrev (millis s1) s2 else Some s2)
             (\<lambda>s3.
           Option.bind (await_release e s3) (\<lambda>s4.
             let time_diff = (if a = ActionConfirm then 0 else millis s4 - millis s1);
                 s5 = delay e (unat (time_diff * 2 + ENCODER_JITTER)) s4
             in Some (a, s5\<lparr>event_on_encoder := False\<rparr>)))) = Some (a, s')"
    unfolding wait_for_action_def
    by (auto simp: bind_eq_Some_conv Let_def split: if_splits)
  from rest obtain s2 s3 s4 where
    s2: "(if a = ActionPrev then await_pair e ActionNext (millis s1) s1 else Some s1) = Some s2"
    and s3: "(if a = ActionNext then await_pair e ActionPrev (millis s1) s2 else Some s2) = Some s3"
    and s4: "await_release e s3 = Some s4"
    and fin: "s' = (delay e (unat ((if a = ActionConfirm then 0 else millis s4 - millis s1) * 2
                                  + ENCODER_JITTER)) s4)\<lparr>event_on_encoder := False\<rparr>"
    by (auto simp: bind_eq_Some_conv Let_def)
  have "(case paired_level a of Some other \<Rightarrow> await_pair e other (millis s1) s1
                          | None \<Rightarrow> Some s1) = Some s3"
    using s2 s3 by (cases a) (simp_all split: if_splits)
  with s0 s1 s4 fin show ?thesis by blast
qed

text \<open>
  C7.  Let an encoder event be pending or still to come, and let the pin read zero again
  and again.  Then \<open>wait_for_action\<close> returns, and the action it returns is the one of its
  first sample, whatever was sampled afterwards.  For a first sample \<open>ActionPrev\<close> (or
  \<open>ActionNext\<close>) the pairing loop runs before the release is awaited.  If the first later
  sample in the band of the other direction comes within 350 passes of that loop, the loop
  ends right after that sample: the second contact is consumed by this call, and is not
  left to be reported as an action of its own.  If no such sample comes that early, the
  loop ends after 351 passes and 351 milliseconds, and the direction of the first sample
  is returned all the same.  One of the two is always the case (\<open>pairing_cases\<close>).  In
  both, the call then consumes the samples up to a zero one, sleeps, and leaves the event
  flag cleared.
\<close>

theorem wait_for_action_initiating:
  assumes "event_on_encoder s \<or> (\<exists>t\<ge>clock s. pcint_at e t)"
    and "\<forall>n. \<exists>k\<ge>n. analog e k = 0"
  shows "\<exists>s0 a s1 s'. await_event e s = Some s0 \<and> read_action e s0 = Some (a, s1) \<and>
    wait_for_action e s = Some (a, s') \<and> polls s s' \<and>
    (a \<noteq> NoAction \<longrightarrow>
      \<not> event_on_encoder s' \<and> reads s1 < reads s' \<and> analog e (reads s' - 1) = 0 \<and>
      (\<exists>s3 s4. polls s1 s3 \<and> await_release e s3 = Some s4 \<and>
         s' = (delay e (unat ((if a = ActionConfirm then 0 else millis s4 - millis s1) * 2
                               + ENCODER_JITTER)) s4)\<lparr>event_on_encoder := False\<rparr> \<and>
         (paired_level a = None \<longrightarrow> s3 = s1) \<and>
         (\<forall>other j. paired_level a = Some other \<and> pair_at e other (reads s1) j \<longrightarrow>
            reads s3 = j + 1 \<and> clock s3 = clock s1 + heard e (reads s1) j) \<and>
         (\<forall>other. paired_level a = Some other \<and> pair_missed e other (reads s1) \<longrightarrow>
            clock s3 = clock s1 + 351 \<and> heard e (reads s1) (reads s3) = 351)))"
proof -
  from wait_for_action_total[OF assms] obtain a s' where
    w: "wait_for_action e s = Some (a, s')" by blast
  from wait_for_action_Some[OF w] obtain s0 s1 where
    s0: "await_event e s = Some s0" and s1: "read_action e s0 = Some (a, s1)"
    and rest: "if a = NoAction then s' = s1
     else \<exists>s4. polls s1 s4 \<and> reads s1 < reads s4 \<and> analog e (reads s4 - 1) = 0 \<and>
            s' = (delay e (unat ((if a = ActionConfirm then 0 else millis s4 - millis s1) * 2
                                  + ENCODER_JITTER)) s4)\<lparr>event_on_encoder := False\<rparr>"
    by blast
  have basic: "a \<noteq> NoAction \<longrightarrow>
      \<not> event_on_encoder s' \<and> reads s1 < reads s' \<and> analog e (reads s' - 1) = 0"
    using rest by auto
  have phases: "\<exists>s3 s4. polls s1 s3 \<and> await_release e s3 = Some s4 \<and>
         s' = (delay e (unat ((if a = ActionConfirm then 0 else millis s4 - millis s1) * 2
                               + ENCODER_JITTER)) s4)\<lparr>event_on_encoder := False\<rparr> \<and>
         (paired_level a = None \<longrightarrow> s3 = s1) \<and>
         (\<forall>other j. paired_level a = Some other \<and> pair_at e other (reads s1) j \<longrightarrow>
            reads s3 = j + 1 \<and> clock s3 = clock s1 + heard e (reads s1) j) \<and>
         (\<forall>other. paired_level a = Some other \<and> pair_missed e other (reads s1) \<longrightarrow>
            clock s3 = clock s1 + 351 \<and> heard e (reads s1) (reads s3) = 351)"
    if "a \<noteq> NoAction"
  proof -
    from wait_for_action_phases[OF w that] s0 s1 obtain s3 s4 where
      s3: "(case paired_level a of Some other \<Rightarrow> await_pair e other (millis s1) s1
                          | None \<Rightarrow> Some s1) = Some s3"
      and s4: "await_release e s3 = Some s4"
      and fin: "s' = (delay e (unat ((if a = ActionConfirm then 0 else millis s4 - millis s1) * 2
                          + ENCODER_JITTER)) s4)\<lparr>event_on_encoder := False\<rparr>"
      by auto
    have p: "polls s1 s3"
      using s3 by (auto split: option.splits dest: await_pair_returns)
    have none: "paired_level a = None \<longrightarrow> s3 = s1"
      using s3 by auto
    have found: "reads s3 = j + 1 \<and> clock s3 = clock s1 + heard e (reads s1) j"
      if "paired_level a = Some other \<and> pair_at e other (reads s1) j" for other j
    proof -
      from that have pa: "reads s1 \<le> j" "band_of (analog e j) = Some other"
        "\<forall>i. reads s1 \<le> i \<and> i < j \<longrightarrow> band_of (analog e i) \<noteq> Some other"
        "heard e (reads s1) j + 0 \<le> 350"
        by (auto simp: pair_at_def)
      from await_pair_finds[OF pa, of "clock s1"] that s3 show ?thesis
        by (auto simp: millis_def)
    qed
    have missed: "clock s3 = clock s1 + 351 \<and> heard e (reads s1) (reads s3) = 351"
      if "paired_level a = Some other \<and> pair_missed e other (reads s1)" for other
    proof -
      from that have "\<forall>j\<ge>reads s1. band_of (analog e j) = Some other \<longrightarrow>
          heard e (reads s1) j + 0 > 350"
        by (simp add: pair_missed_def)
      from await_pair_times_out[OF assms(2) _ _ this, of "clock s1"] that s3 show ?thesis
        by (auto simp: millis_def)
    qed
    from found have f: "\<forall>other j. paired_level a = Some other \<and> pair_at e other (reads s1) j \<longrightarrow>
            reads s3 = j + 1 \<and> clock s3 = clock s1 + heard e (reads s1) j"
      by blast
    from missed have m: "\<forall>other. paired_level a = Some other \<and> pair_missed e other (reads s1) \<longrightarrow>
            clock s3 = clock s1 + 351 \<and> heard e (reads s1) (reads s3) = 351"
      by blast
    have "polls s1 s3 \<and> await_release e s3 = Some s4 \<and>
         s' = (delay e (unat ((if a = ActionConfirm then 0 else millis s4 - millis s1) * 2
                               + ENCODER_JITTER)) s4)\<lparr>event_on_encoder := False\<rparr> \<and>
         (paired_level a = None \<longrightarrow> s3 = s1) \<and>
         (\<forall>other j. paired_level a = Some other \<and> pair_at e other (reads s1) j \<longrightarrow>
            reads s3 = j + 1 \<and> clock s3 = clock s1 + heard e (reads s1) j) \<and>
         (\<forall>other. paired_level a = Some other \<and> pair_missed e other (reads s1) \<longrightarrow>
            clock s3 = clock s1 + 351 \<and> heard e (reads s1) (reads s3) = 351)"
      using p s4 fin none f m by (intro conjI)
    then show ?thesis by - (rule exI, rule exI, assumption)
  qed
  from basic phases have "a \<noteq> NoAction \<longrightarrow>
      \<not> event_on_encoder s' \<and> reads s1 < reads s' \<and> analog e (reads s' - 1) = 0 \<and>
      (\<exists>s3 s4. polls s1 s3 \<and> await_release e s3 = Some s4 \<and>
         s' = (delay e (unat ((if a = ActionConfirm then 0 else millis s4 - millis s1) * 2
                               + ENCODER_JITTER)) s4)\<lparr>event_on_encoder := False\<rparr> \<and>
         (paired_level a = None \<longrightarrow> s3 = s1) \<and>
         (\<forall>other j. paired_level a = Some other \<and> pair_at e other (reads s1) j \<longrightarrow>
            reads s3 = j + 1 \<and> clock s3 = clock s1 + heard e (reads s1) j) \<and>
         (\<forall>other. paired_level a = Some other \<and> pair_missed e other (reads s1) \<longrightarrow>
            clock s3 = clock s1 + 351 \<and> heard e (reads s1) (reads s3) = 351))"
    by simp
  with s0 s1 w wait_for_action_polls[OF w] show ?thesis
    by - (rule exI[of _ s0], rule exI[of _ a], rule exI[of _ s1], rule exI[of _ s'], simp)
qed


theorem wait_for_action_initiating_witness:
  "(event_on_encoder (PCINT1_vect boot) \<or>
      (\<exists>t\<ge>clock (PCINT1_vect boot). pcint_at prev_unpaired t)) \<and>
   (\<forall>n. \<exists>k\<ge>n. analog prev_unpaired k = 0) \<and>
   pair_missed prev_unpaired ActionNext 1 \<and>
   (\<exists>s'. wait_for_action prev_unpaired (PCINT1_vect boot) = Some (ActionPrev, s') \<and>
         351 \<le> clock s') \<and>
   pair_at two_contacts ActionNext 1 2 \<and>
   wait_for_action two_contacts (PCINT1_vect boot) =
     Some (ActionPrev, boot\<lparr>clock := 8, reads := 4, trace := [Sleep 1, Sleep 7]\<rparr>) \<and>
   wait_for_action two_contacts (boot\<lparr>clock := 8, reads := 4, trace := [Sleep 1, Sleep 7]\<rparr>) =
     Some (NoAction, boot\<lparr>event_on_encoder := True, clock := 9, reads := 5,
                         trace := [Sleep 1, Sleep 7, Sleep 1]\<rparr>)"
proof -
  have ev: "event_on_encoder (PCINT1_vect boot) \<or>
      (\<exists>t\<ge>clock (PCINT1_vect boot). pcint_at prev_unpaired t)"
    by (simp add: PCINT1_vect_def)
  have zeros: "\<forall>n. \<exists>k\<ge>n. analog prev_unpaired k = 0"
    unfolding prev_unpaired_def by (rule bench_zeros)
  have missed: "pair_missed prev_unpaired ActionNext 1"
    by (auto simp: pair_missed_def prev_unpaired_def band_of_def)
  have e0: "await_event prev_unpaired (PCINT1_vect boot) = Some (PCINT1_vect boot)"
    by (simp add: await_event_now PCINT1_vect_def)
  have r0: "read_action prev_unpaired (PCINT1_vect boot) =
      Some (ActionPrev, (PCINT1_vect boot)\<lparr>reads := 1\<rparr>)"
    by (simp add: read_action_band prev_unpaired_def boot_def band_of_def PCINT1_vect_def)
  from wait_for_action_initiating[OF ev zeros] e0 r0 obtain s' s3 s4 where
    w: "wait_for_action prev_unpaired (PCINT1_vect boot) = Some (ActionPrev, s')"
    and s4: "await_release prev_unpaired s3 = Some s4"
    and s': "s' = (delay prev_unpaired
               (unat ((if ActionPrev = ActionConfirm then 0
                       else millis s4 - millis ((PCINT1_vect boot)\<lparr>reads := 1\<rparr>)) * 2
                      + ENCODER_JITTER)) s4)\<lparr>event_on_encoder := False\<rparr>"
    and m: "\<forall>other. paired_level ActionPrev = Some other \<and>
              pair_missed prev_unpaired other (reads ((PCINT1_vect boot)\<lparr>reads := 1\<rparr>)) \<longrightarrow>
              clock s3 = clock ((PCINT1_vect boot)\<lparr>reads := 1\<rparr>) + 351 \<and>
              heard prev_unpaired (reads ((PCINT1_vect boot)\<lparr>reads := 1\<rparr>)) (reads s3) = 351"
    by auto
  from m missed have "clock s3 = 351"
    by (simp add: PCINT1_vect_def boot_def)
  moreover from await_release_returns[OF s4] have "clock s3 \<le> clock s4"
    by (simp add: polls_def)
  ultimately have "351 \<le> clock s'" using s' by simp
  with w have first: "\<exists>s'. wait_for_action prev_unpaired (PCINT1_vect boot) =
      Some (ActionPrev, s') \<and> 351 \<le> clock s'"
    by blast
  have at: "pair_at two_contacts ActionNext 1 2"
    by (auto simp: pair_at_def heard_def two_contacts_def band_of_def less_Suc_eq numeral_2_eq_2)
  have run1: "wait_for_action two_contacts (PCINT1_vect boot) =
     Some (ActionPrev, boot\<lparr>clock := 8, reads := 4, trace := [Sleep 1, Sleep 7]\<rparr>)"
    by (simp add: wait_for_action_def await_event_now read_action_band await_release.simps
        await_pair.simps two_contacts_def delay_bench PCINT1_vect_def boot_def band_of_def
        ENCODER_JITTER_def ENCODER_TIMEOUT_def millis_def)
  have run2: "wait_for_action two_contacts
      (boot\<lparr>clock := 8, reads := 4, trace := [Sleep 1, Sleep 7]\<rparr>) =
     Some (NoAction, boot\<lparr>event_on_encoder := True, clock := 9, reads := 5,
                         trace := [Sleep 1, Sleep 7, Sleep 1]\<rparr>)"
    by (simp add: wait_for_action_def await_event_now await_event_later read_action_band
        two_contacts_def delay_bench boot_def band_of_def)
  from ev zeros missed first at run1 run2 show ?thesis by blast
qed

text \<open>
  C8 (as amended).  When \<open>wait_for_action\<close> returns an action other than \<open>NoAction\<close>, the
  last thing it did was to sleep for \<open>d\<close> milliseconds, where \<open>d\<close> is the jitter margin of
  5 ms for \<open>ActionConfirm\<close> (not 0), and otherwise twice the milliseconds from the first
  sample to the release plus 5, all in 32-bit arithmetic.  When it returns \<open>NoAction\<close> it
  has not slept at all after the event arrived.
\<close>

theorem wait_for_action_quiet_period:
  assumes "wait_for_action e s = Some (a, s')"
  shows "\<exists>s0. await_event e s = Some s0 \<and>
    (if a = NoAction then trace s' = trace s0 \<and> clock s' = clock s0
     else \<exists>d. last (trace s') = Sleep d \<and> clock s0 + d \<le> clock s' \<and>
            d = unat ((if a = ActionConfirm then 0
                       else 2 * (word_of_nat (clock s' - d - clock s0) :: 32 word))
                      + ENCODER_JITTER))"
proof -
  from wait_for_action_Some[OF assms] obtain s0 s1 where
    s0: "await_event e s = Some s0" and s1: "read_action e s0 = Some (a, s1)"
    and rest: "if a = NoAction then s' = s1
     else \<exists>s4. polls s1 s4 \<and> reads s1 < reads s4 \<and> analog e (reads s4 - 1) = 0 \<and>
            s' = (delay e (unat ((if a = ActionConfirm then 0 else millis s4 - millis s1) * 2
                                  + ENCODER_JITTER)) s4)\<lparr>event_on_encoder := False\<rparr>"
    by blast
  from read_action_returns[OF s1] have same: "trace s1 = trace s0" "clock s1 = clock s0"
    by auto
  show ?thesis
  proof (cases "a = NoAction")
    case True
    with rest same s0 show ?thesis by simp
  next
    case False
    with rest obtain s4 where p: "polls s1 s4"
      and s': "s' = (delay e (unat ((if a = ActionConfirm then 0 else millis s4 - millis s1) * 2
                                  + ENCODER_JITTER)) s4)\<lparr>event_on_encoder := False\<rparr>"
      by auto
    define d where "d = unat ((if a = ActionConfirm then 0 else millis s4 - millis s1) * 2
                                  + ENCODER_JITTER)"
    have le: "clock s0 \<le> clock s4" using p same by (simp add: polls_def)
    have c': "clock s' = clock s4 + d" and t': "last (trace s') = Sleep d"
      using s' by (simp_all add: d_def)
    have "millis s4 - millis s1 = (word_of_nat (clock s4 - clock s0) :: 32 word)"
      using le same by (simp add: millis_def of_nat_diff)
    then have "d = unat ((if a = ActionConfirm then 0
                       else 2 * (word_of_nat (clock s' - d - clock s0) :: 32 word))
                      + ENCODER_JITTER)"
      using c' by (simp add: d_def mult.commute)
    with c' t' le s0 False show ?thesis by auto
  qed
qed

theorem wait_for_action_quiet_period_witness:
  "wait_for_action prev_then_next (PCINT1_vect boot) =
     Some (ActionPrev, boot\<lparr>clock := 8, reads := 4, trace := [Sleep 1, Sleep 7]\<rparr>) \<and>
   (\<exists>s0. await_event prev_then_next (PCINT1_vect boot) = Some s0 \<and>
      (\<exists>d. last [Sleep 1, Sleep 7] = Sleep d \<and> clock s0 + d \<le> 8 \<and>
         d = unat (2 * (word_of_nat (8 - d - clock s0) :: 32 word) + ENCODER_JITTER)))"
proof -
  have run: "wait_for_action prev_then_next (PCINT1_vect boot) =
     Some (ActionPrev, boot\<lparr>clock := 8, reads := 4, trace := [Sleep 1, Sleep 7]\<rparr>)"
    by (simp add: wait_for_action_def await_event_now read_action_band await_release.simps
        await_pair.simps prev_then_next_def delay_bench PCINT1_vect_def boot_def band_of_def
        ENCODER_JITTER_def ENCODER_TIMEOUT_def millis_def)
  from wait_for_action_quiet_period[OF run] show ?thesis
    using run by simp
qed

theorem confirm_quiet_period_counterexample:
  "wait_for_action press_confirm (PCINT1_vect boot) =
     Some (ActionConfirm, boot\<lparr>clock := 5, reads := 2, trace := [Sleep 5]\<rparr>)"
  by (simp add: wait_for_action_def await_event_now read_action_band await_release.simps
      press_confirm_def delay_bench PCINT1_vect_def boot_def band_of_def ENCODER_JITTER_def
      millis_def)

subsection \<open>The selection menu\<close>

lemma MAX_IDX_eq: "MAX_IDX = 4" "length filaments = 5"
  by (simp_all add: MAX_IDX_def filaments_def)

lemma menu_index_cases:
  "menu_index ActionNext i = (if i = MAX_IDX then 0 else i + 1)"
  "menu_index ActionPrev i = (if i = 0 then MAX_IDX else i - 1)"
  "menu_index NoAction i = i"
  "menu_index ActionConfirm i = i"
  by (simp_all add: menu_index_def MIN_IDX_def)

lemma menu_index_in_table: "i \<le> MAX_IDX \<Longrightarrow> menu_index a i \<le> MAX_IDX"
  by (cases a) (auto simp: menu_index_cases)

lemma show_filament_in_table:
  assumes "i \<le> MAX_IDX"
  shows "\<exists>evs. no_heater_cmd evs \<and>
    show_filament i s = Done () (emit evs (s\<lparr>filament := Some (filaments ! i)\<rparr>))"
proof -
  have "i < length filaments" using assms by (simp add: MAX_IDX_eq)
  then have "show_filament i s = Done ()
      (emit [LcdCursor 0 0, LcdPrint (name (filaments ! i)), LcdPrint '' ?   '',
             LcdCursor 0 1, LcdPrintNum (unat (time_sec (filaments ! i) div 3600)),
             LcdPrint '' hours at '', LcdPrintNum (unat (temp (filaments ! i))),
             LcdPrint ''*      ''] (s\<lparr>filament := Some (filaments ! i)\<rparr>))"
    by (simp add: show_filament_def present_filament_def)
  moreover have "no_heater_cmd
      [LcdCursor 0 0, LcdPrint (name (filaments ! i)), LcdPrint '' ?   '',
             LcdCursor 0 1, LcdPrintNum (unat (time_sec (filaments ! i) div 3600)),
             LcdPrint '' hours at '', LcdPrintNum (unat (temp (filaments ! i))),
             LcdPrint ''*      '']"
    by simp
  ultimately show ?thesis by blast
qed

lemma show_filament_forgets:
  "show_filament i (s\<lparr>filament := x\<rparr>) = show_filament i s"
  by (simp add: show_filament_def)

lemma choose_filament_forgets:
  "choose_filament e (s\<lparr>filament := x\<rparr>) = choose_filament e s"
proof -
  have "clear_screen (s\<lparr>filament := x\<rparr>) = (clear_screen s)\<lparr>filament := x\<rparr>"
    by (simp add: clear_screen_def emit_def)
  then show ?thesis
    by (simp add: choose_filament_def show_filament_forgets)
qed

lemma no_heater_cmd_append [simp]:
  "no_heater_cmd (xs @ ys) \<longleftrightarrow> no_heater_cmd xs \<and> no_heater_cmd ys"
  by (induction xs rule: no_heater_cmd.induct) auto

lemma no_heater_cmd_sleeps [simp]: "no_heater_cmd (map Sleep ds)"
  by (induction ds) auto

lemma pin_after_no_heater_cmd: "no_heater_cmd evs \<Longrightarrow> pin_after b evs = b"
  by (induction evs rule: no_heater_cmd.induct) auto

lemma menu_inv_enter:
  assumes "show_filament MIN_IDX (clear_screen s0) = Done () s1"
  shows "menu_inv s0 MIN_IDX s1"
proof -
  from show_filament_in_table[of MIN_IDX "clear_screen s0"] obtain evs where
    "no_heater_cmd evs"
    "show_filament MIN_IDX (clear_screen s0) =
      Done () (emit evs ((clear_screen s0)\<lparr>filament := Some (filaments ! MIN_IDX)\<rparr>))"
    by (auto simp: MIN_IDX_def)
  with assms have "s1 = emit evs ((clear_screen s0)\<lparr>filament := Some (filaments ! MIN_IDX)\<rparr>)"
    and "no_heater_cmd ([LcdClear, LcdHome] @ evs)"
    by simp_all
  then show ?thesis
    unfolding menu_inv_def
    by (auto simp: emit_def clear_screen_def MIN_IDX_def)
qed

lemma menu_inv_turn:
  assumes inv: "menu_inv s0 i s" and w: "wait_for_action e s = Some (a, s1)"
    and sh: "show_filament (menu_index a i) s1 = Done () s2"
  shows "menu_inv s0 (menu_index a i) s2"
proof -
  have i: "menu_index a i \<le> MAX_IDX" using inv by (simp add: menu_inv_def menu_index_in_table)
  from show_filament_in_table[OF i, of s1] sh obtain evs where evs: "no_heater_cmd evs"
    "s2 = emit evs (s1\<lparr>filament := Some (filaments ! menu_index a i)\<rparr>)"
    by auto
  from wait_for_action_polls[OF w] obtain ds where p: "heater_is_on s1 = heater_is_on s"
    "heating_stage s1 = heating_stage s" "queries s1 = queries s"
    "trace s1 = trace s @ map Sleep ds"
    by (auto simp: polls_def)
  from inv obtain evs0 where "trace s = trace s0 @ evs0" "no_heater_cmd evs0"
    by (auto simp: menu_inv_def)
  with p(4) evs have "trace s2 = trace s0 @ (evs0 @ map Sleep ds @ evs)"
    "no_heater_cmd (evs0 @ map Sleep ds @ evs)"
    by (simp_all add: emit_def)
  then have "\<exists>evs. trace s2 = trace s0 @ evs \<and> no_heater_cmd evs" by blast
  with inv i p evs(2) show ?thesis
    by (simp add: menu_inv_def emit_def)
qed

lemma menu_inv: "menu e s0 i s \<Longrightarrow> menu_inv s0 i s"
  by (induction rule: menu.induct) (auto intro: menu_inv_enter menu_inv_turn)

lemma menu_loop_head: "menu e s0 i s \<Longrightarrow> choose_filament e s0 = choose_loop e i s"
proof (induction rule: menu.induct)
  case (enter s1)
  then show ?case by (simp add: choose_filament_def)
next
  case (turn i s a s1 s2)
  have "choose_loop e i s = choose_loop e (menu_index a i) s2"
    by (subst choose_loop.simps) (simp add: turn.hyps)
  with turn.IH show ?case by simp
qed

lemma choose_loop_returns:
  assumes "choose_loop e i s = Some r" and "menu_inv s0 i s"
  shows "\<exists>j s'. r = Done () s' \<and> menu_inv s0 j s'"
proof -
  let ?P = "\<lambda>(e::env) i s r. \<forall>s0. menu_inv s0 i s \<longrightarrow> (\<exists>j s'. r = Done () s' \<and> menu_inv s0 j s')"
  have "?P e i s r"
  proof (rule choose_loop.raw_induct[where P = ?P, OF _ assms(1)])
    fix f :: "env \<Rightarrow> nat \<Rightarrow> state \<Rightarrow> unit outcome option" and e i s r
    assume IH: "\<And>e i s r. f e i s = Some r \<Longrightarrow> ?P e i s r"
      and body: "Option.bind (wait_for_action e s) (\<lambda>(action, s1).
        if action = ActionConfirm then Some (Done () s1)
        else case show_filament (menu_index action i) s1 of
               Done u s2 \<Rightarrow> f e (menu_index action i) s2
             | Halt r h \<Rightarrow> Some (Halt r h)
             | Fault \<Rightarrow> Some Fault) = Some r"
    show "?P e i s r"
    proof (intro allI impI)
      fix s0 assume inv: "menu_inv s0 i s"
      from body obtain a s1 where w: "wait_for_action e s = Some (a, s1)"
        and rest: "(if a = ActionConfirm then Some (Done () s1)
          else case show_filament (menu_index a i) s1 of
               Done u s2 \<Rightarrow> f e (menu_index a i) s2
             | Halt r h \<Rightarrow> Some (Halt r h)
             | Fault \<Rightarrow> Some Fault) = Some r"
        by (auto simp: bind_eq_Some_conv)
      show "\<exists>j s'. r = Done () s' \<and> menu_inv s0 j s'"
      proof (cases "a = ActionConfirm")
        case True
        from wait_for_action_polls[OF w] inv have "menu_inv s0 i s1"
          unfolding menu_inv_def polls_def
          by (elim conjE exE, intro conjI; simp)
        with True rest show ?thesis by auto
      next
        case False
        have "menu_index a i \<le> MAX_IDX"
          using inv by (simp add: menu_inv_def menu_index_in_table)
        from show_filament_in_table[OF this, of s1] obtain s2 where
          sh: "show_filament (menu_index a i) s1 = Done () s2" by blast
        with rest False have "f e (menu_index a i) s2 = Some r" by simp
        from IH[OF this] menu_inv_turn[OF inv w sh] show ?thesis by blast
      qed
    qed
  qed
  with assms(2) show ?thesis by blast
qed

subsection \<open>The selection menu: results\<close>

text \<open>
  C9.  At the head of the menu's loop with index \<open>i\<close> in the table and the filament at
  \<open>i\<close> shown, let the next resolved action be \<open>a\<close>.  If \<open>a\<close> is a press, the menu returns
  and the selected filament is the one at \<open>i\<close>.  Otherwise the filament at the new index is
  selected and shown and the loop goes on from that index, which is 0 after the last and
  \<open>i + 1\<close> otherwise for \<open>ActionNext\<close>, the last after 0 and \<open>i - 1\<close> otherwise for
  \<open>ActionPrev\<close>, and \<open>i\<close> itself for \<open>NoAction\<close>.
\<close>

theorem choose_loop_step:
  assumes "i \<le> MAX_IDX" and "filament s = Some (filaments ! i)"
    and "wait_for_action e s = Some (a, s1)"
  shows "(a = ActionConfirm \<longrightarrow>
            choose_loop e i s = Some (Done () s1) \<and> filament s1 = Some (filaments ! i)) \<and>
         (a \<noteq> ActionConfirm \<longrightarrow>
            (\<exists>s2. show_filament (menu_index a i) s1 = Done () s2 \<and>
                  filament s2 = Some (filaments ! menu_index a i) \<and>
                  choose_loop e i s = choose_loop e (menu_index a i) s2)) \<and>
         menu_index a i \<le> MAX_IDX \<and>
         menu_index ActionNext i = (if i = MAX_IDX then 0 else i + 1) \<and>
         menu_index ActionPrev i = (if i = 0 then MAX_IDX else i - 1) \<and>
         menu_index NoAction i = i"
proof -
  have same: "filament s1 = filament s"
    using wait_for_action_polls[OF assms(3)] by (simp add: polls_def)
  have confirm: "a = ActionConfirm \<longrightarrow>
      choose_loop e i s = Some (Done () s1) \<and> filament s1 = Some (filaments ! i)"
    using same assms(2) by (subst choose_loop.simps) (simp add: assms(3))
  have idx: "menu_index a i \<le> MAX_IDX"
    using assms(1) by (rule menu_index_in_table)
  from show_filament_in_table[OF idx, of s1] obtain evs where
    sh: "show_filament (menu_index a i) s1 =
      Done () (emit evs (s1\<lparr>filament := Some (filaments ! menu_index a i)\<rparr>))"
    by blast
  have "a \<noteq> ActionConfirm \<longrightarrow>
      choose_loop e i s =
      choose_loop e (menu_index a i) (emit evs (s1\<lparr>filament := Some (filaments ! menu_index a i)\<rparr>))"
    by (subst choose_loop.simps) (simp add: assms(3) sh)
  moreover have "filament (emit evs (s1\<lparr>filament := Some (filaments ! menu_index a i)\<rparr>)) =
      Some (filaments ! menu_index a i)"
    by (simp add: emit_def)
  ultimately have other: "a \<noteq> ActionConfirm \<longrightarrow>
            (\<exists>s2. show_filament (menu_index a i) s1 = Done () s2 \<and>
                  filament s2 = Some (filaments ! menu_index a i) \<and>
                  choose_loop e i s = choose_loop e (menu_index a i) s2)"
    using sh by blast
  from confirm other idx show ?thesis
    by (simp add: menu_index_cases)
qed

theorem choose_loop_step_witness:
  "4 \<le> MAX_IDX \<and> filament at_last_entry = Some (filaments ! 4) \<and>
   wait_for_action next_at_last at_last_entry =
     Some (ActionNext, at_last_entry\<lparr>event_on_encoder := False, clock := 5, reads := 3,
                                        trace := [Sleep 5]\<rparr>) \<and>
   menu_index ActionNext 4 = 0 \<and>
   (\<exists>s2. filament s2 = Some (filaments ! 0) \<and>
      choose_loop next_at_last 4 at_last_entry = choose_loop next_at_last 0 s2)"
proof -
  have idx: "4 \<le> MAX_IDX" by (simp add: MAX_IDX_eq)
  have sel: "filament at_last_entry = Some (filaments ! 4)"
    by (simp add: at_last_entry_def PCINT1_vect_def)
  have run: "wait_for_action next_at_last at_last_entry =
     Some (ActionNext, at_last_entry\<lparr>event_on_encoder := False, clock := 5, reads := 3,
                                        trace := [Sleep 5]\<rparr>)"
    by (simp add: wait_for_action_def await_event_now read_action_band await_release.simps
        await_pair.simps next_at_last_def at_last_entry_def delay_bench PCINT1_vect_def boot_def
        band_of_def ENCODER_JITTER_def ENCODER_TIMEOUT_def millis_def)
  from choose_loop_step[OF idx sel run] idx sel run show ?thesis
    by (auto simp: MAX_IDX_eq)
qed

subsection \<open>The first block of the main loop\<close>

lemma choose_filament_returns:
  assumes "choose_filament e s0 = Some r"
  shows "\<exists>j s'. r = Done () s' \<and> menu_inv s0 j s'"
proof -
  from show_filament_in_table[of MIN_IDX "clear_screen s0"] obtain s1 where
    sh: "show_filament MIN_IDX (clear_screen s0) = Done () s1"
    by (auto simp: MIN_IDX_def)
  with assms have "choose_loop e MIN_IDX s1 = Some r"
    by (simp add: choose_filament_def)
  then show ?thesis
    using menu_inv_enter[OF sh] by (rule choose_loop_returns)
qed

lemma selection_skipped: "filament s \<noteq> None \<Longrightarrow> selection e s = Some (Done () s)"
  by (auto simp: selection_def)

lemma selection_returns:
  assumes "filament s = None" and "selection e s = Some r"
  shows "\<exists>s' j evs. r = Done () s' \<and> j \<le> MAX_IDX \<and> filament s' = Some (filaments ! j) \<and>
    \<not> heater_is_on s' \<and> heating_stage s' = Idle \<and> seconds s' = 0 \<and> refresh_screen s' \<and>
    trace s' = trace s @ HeaterPin False # evs \<and> no_heater_cmd evs"
proof -
  from assms obtain r0 where c: "choose_filament e (turn_off s) = Some r0"
    by (auto simp: selection_def split: option.splits)
  from choose_filament_returns[OF c] obtain j s1 where
    r0: "r0 = Done () s1" and inv: "menu_inv (turn_off s) j s1"
    by blast
  from inv obtain evs where evs: "trace s1 = trace (turn_off s) @ evs" "no_heater_cmd evs"
    by (auto simp: menu_inv_def)
  let ?s' = "(reset_timer (clear_screen s1))\<lparr>heating_stage := Idle, refresh_screen := True\<rparr>"
  have r: "r = Done () ?s'"
    using assms c r0 by (simp add: selection_def)
  have "trace ?s' = trace s @ HeaterPin False # (evs @ [LcdClear, LcdHome])"
    using evs(1) by (simp add: reset_timer_def clear_screen_def emit_def turn_off_def)
  moreover have "no_heater_cmd (evs @ [LcdClear, LcdHome])"
    using evs(2) by simp
  moreover have "j \<le> MAX_IDX" "filament ?s' = Some (filaments ! j)" "\<not> heater_is_on ?s'"
    "heating_stage ?s' = Idle" "seconds ?s' = 0" "refresh_screen ?s'"
    using inv by (simp_all add: menu_inv_def reset_timer_def clear_screen_def emit_def turn_off_def)
  ultimately show ?thesis using r by blast
qed

text \<open>
  C10.  Let \<open>loop\<close> begin with no filament selected.  Its first effect is to switch the
  heater off, and the menu is entered after that at index 0 with the first filament of
  the table shown, whatever the selection held before.  At every head of the menu's loop
  the heater flag is clear and no effect since the switch-off has been a write to the
  heater pin; the same holds when the selection block is left, which it is only with a
  filament of the table selected.
\<close>

theorem selection_heater_off:
  assumes "filament s = None"
  shows "(\<exists>s1. menu e (turn_off s) 0 s1 \<and> filament s1 = Some (filaments ! 0)) \<and>
    (\<forall>x. choose_filament e ((turn_off s)\<lparr>filament := x\<rparr>) = choose_filament e (turn_off s)) \<and>
    (\<forall>i s'. menu e (turn_off s) i s' \<longrightarrow>
       choose_filament e (turn_off s) = choose_loop e i s' \<and> \<not> heater_is_on s' \<and>
       (\<exists>evs. trace s' = trace s @ HeaterPin False # evs \<and> no_heater_cmd evs)) \<and>
    (\<forall>r. selection e s = Some r \<longrightarrow>
       (\<exists>s' j evs. r = Done () s' \<and> j \<le> MAX_IDX \<and> filament s' = Some (filaments ! j) \<and>
          \<not> heater_is_on s' \<and> trace s' = trace s @ HeaterPin False # evs \<and> no_heater_cmd evs))"
proof (intro conjI allI impI)
  from show_filament_in_table[of 0 "clear_screen (turn_off s)"] obtain s1 where
    sh: "show_filament MIN_IDX (clear_screen (turn_off s)) = Done () s1"
    by (auto simp: MIN_IDX_def)
  then have "menu e (turn_off s) MIN_IDX s1" by (rule menu.enter)
  moreover from menu_inv_enter[OF sh] have "filament s1 = Some (filaments ! 0)"
    by (simp add: menu_inv_def MIN_IDX_def)
  ultimately show "\<exists>s1. menu e (turn_off s) 0 s1 \<and> filament s1 = Some (filaments ! 0)"
    by (auto simp: MIN_IDX_def)
next
  fix x
  show "choose_filament e ((turn_off s)\<lparr>filament := x\<rparr>) = choose_filament e (turn_off s)"
    by (rule choose_filament_forgets)
next
  fix i s' assume m: "menu e (turn_off s) i s'"
  then show "choose_filament e (turn_off s) = choose_loop e i s'"
    by (rule menu_loop_head)
  from menu_inv[OF m] show "\<not> heater_is_on s'"
    by (simp add: menu_inv_def turn_off_def)
  from menu_inv[OF m] show "\<exists>evs. trace s' = trace s @ HeaterPin False # evs \<and> no_heater_cmd evs"
    by (auto simp: menu_inv_def turn_off_def)
next
  fix r assume "selection e s = Some r"
  from selection_returns[OF assms this]
  show "\<exists>s' j evs. r = Done () s' \<and> j \<le> MAX_IDX \<and> filament s' = Some (filaments ! j) \<and>
          \<not> heater_is_on s' \<and> trace s' = trace s @ HeaterPin False # evs \<and> no_heater_cmd evs"
    by blast
qed

theorem selection_heater_off_witness:
  "filament boot = None \<and>
   (\<exists>s'. selection press_confirm boot = Some (Done () s') \<and>
      filament s' = Some (filaments ! 0) \<and> \<not> heater_is_on s' \<and>
      (\<exists>evs. trace s' = trace boot @ HeaterPin False # evs \<and> no_heater_cmd evs))"
proof -
  have none: "filament boot = None" by (simp add: boot_def)
  have "\<exists>s'. selection press_confirm boot = Some (Done () s') \<and>
      filament s' = Some (filaments ! 0)"
    by (simp add: selection_def choose_filament_def choose_loop.simps show_filament_def
        present_filament_def wait_for_action_def await_event_now await_event_later
        read_action_band await_release.simps press_confirm_def delay_bench boot_def
        band_of_def ENCODER_JITTER_def millis_def MIN_IDX_def MAX_IDX_eq turn_off_def
        clear_screen_def emit_def reset_timer_def)
  then obtain s' where run: "selection press_confirm boot = Some (Done () s')"
    "filament s' = Some (filaments ! 0)" by blast
  from selection_heater_off[OF none, of press_confirm] run none show ?thesis
    by auto
qed

subsection \<open>One iteration of the main loop\<close>

lemma query_sensor_Done:
  "query_sensor e s = Done t s1 \<Longrightarrow> s1 = s\<lparr>queries := queries s + 1\<rparr>"
  by (auto simp: query_sensor_def Let_def panic_def split: if_splits)

lemma set_heater_state_Done:
  assumes "set_heater_state t s = Done () s'"
  shows "\<exists>f. filament s = Some f \<and> filament s' = Some f \<and>
    (if heating_stage s = Idle \<or> (heating_stage s = PreHeating \<and> t > temp f)
     then seconds s' = 0 \<and> \<not> refresh_screen s' \<and> heating_stage s' \<noteq> Idle
     else seconds s' = seconds s \<and> refresh_screen s' = refresh_screen s \<and>
          heating_stage s' = heating_stage s)"
  using assms
  by (cases "filament s")
     (auto simp: set_heater_state_def panic_def turn_on_def turn_off_def reset_timer_def Let_def
           split: if_splits)

lemma print_min_sec_frame [simp]:
  "filament (print_min_sec v s) = filament s" "seconds (print_min_sec v s) = seconds s"
  "refresh_screen (print_min_sec v s) = refresh_screen s"
  "heating_stage (print_min_sec v s) = heating_stage s"
  "heater_is_on (print_min_sec v s) = heater_is_on s"
  by (simp_all add: print_min_sec_def emit_def Let_def)

lemma update_screen_Done:
  assumes "update_screen t s = Done () s'"
  shows "filament s' = filament s \<and> seconds s' = seconds s \<and>
    refresh_screen s' = refresh_screen s \<and> heating_stage s' = heating_stage s \<and>
    heater_is_on s' = heater_is_on s \<and>
    (heating_stage s \<noteq> Working \<longrightarrow> seconds s < 3600)"
  using assms
  by (cases "filament s")
     (auto simp: update_screen_def panic_def emit_def Let_def split: if_splits)

lemma control_Done:
  assumes c: "control e s = Done () s'" and j: "between_iterations s \<or> heating_stage s = Idle"
  shows "filament s' \<noteq> None \<and> between_iterations s'"
proof -
  from c obtain t s1 where q: "query_sensor e s = Done t s1"
    by (auto simp: control_def split: outcome.splits)
  from c q obtain s2 where h: "set_heater_state t s1 = Done () s2"
    by (auto simp: control_def split: outcome.splits)
  from c q h have u: "(if refresh_screen s2 then update_screen t (s2\<lparr>refresh_screen := False\<rparr>)
            else Done () s2) = Done () s'"
    by (simp add: control_def)
  have s1: "s1 = s\<lparr>queries := queries s + 1\<rparr>" using q by (rule query_sensor_Done)
  from set_heater_state_Done[OF h] obtain f where f: "filament s1 = Some f" "filament s2 = Some f"
    and step: "if heating_stage s1 = Idle \<or> (heating_stage s1 = PreHeating \<and> t > temp f)
     then seconds s2 = 0 \<and> \<not> refresh_screen s2 \<and> heating_stage s2 \<noteq> Idle
     else seconds s2 = seconds s1 \<and> refresh_screen s2 = refresh_screen s1 \<and>
          heating_stage s2 = heating_stage s1"
    by blast
  show ?thesis
  proof (cases "refresh_screen s2")
    case True
    with u have "update_screen t (s2\<lparr>refresh_screen := False\<rparr>) = Done () s'" by simp
    from update_screen_Done[OF this] f(2) show ?thesis
      by (auto simp: between_iterations_def)
  next
    case False
    with u have "s' = s2" by simp
    with False f step j s1 show ?thesis
      by (auto simp: between_iterations_def split: if_splits)
  qed
qed

lemma await_confirm_accepts:
  "wait_for_action e s = Some (ActionConfirm, s1) \<Longrightarrow> await_confirm e s = Some s1"
  by (subst await_confirm.simps) simp

lemma await_confirm_ignores:
  "wait_for_action e s = Some (a, s1) \<Longrightarrow> a \<noteq> ActionConfirm \<Longrightarrow>
   await_confirm e s = await_confirm e s1"
  by (subst await_confirm.simps) simp

lemma await_confirm_returns:
  assumes "await_confirm e s = Some s'"
  shows "polls s s' \<and> (\<exists>sc. polls s sc \<and> wait_for_action e sc = Some (ActionConfirm, s'))"
proof -
  let ?P = "\<lambda>(e::env) s s'. polls s s' \<and>
    (\<exists>sc. polls s sc \<and> wait_for_action e sc = Some (ActionConfirm, s'))"
  show ?thesis
  proof (rule await_confirm.raw_induct[where P = ?P, OF _ assms])
    fix f :: "env \<Rightarrow> state \<Rightarrow> state option" and e s y
    assume IH: "\<And>e s y. f e s = Some y \<Longrightarrow> ?P e s y"
      and body: "Option.bind (wait_for_action e s) (\<lambda>(a, s1).
          if a \<noteq> ActionConfirm then f e s1 else Some s1) = Some y"
    from body obtain a s1 where w: "wait_for_action e s = Some (a, s1)"
      and rest: "(if a \<noteq> ActionConfirm then f e s1 else Some s1) = Some y"
      by (auto simp: bind_eq_Some_conv)
    have p: "polls s s1" using w by (rule wait_for_action_polls)
    show "?P e s y"
    proof (cases "a = ActionConfirm")
      case True
      with rest w have "polls s s \<and> wait_for_action e s = Some (ActionConfirm, y)" by simp
      then have "\<exists>sc. polls s sc \<and> wait_for_action e sc = Some (ActionConfirm, y)" ..
      with True rest p show ?thesis by simp
    next
      case False
      with rest have "f e s1 = Some y" by simp
      from IH[OF this] p show ?thesis
        by (blast intro: polls_trans)
    qed
  qed
qed

lemma announce_frame [simp]:
  "filament (announce e s) = filament s" "heating_stage (announce e s) = heating_stage s"
  "\<not> heater_is_on (announce e s)" "queries (announce e s) = queries s"
  "reads (announce e s) = reads s"
  by (simp_all add: announce_def Let_def emit_def beep_def clear_screen_def turn_off_def)

lemma trace_announce:
  "trace (announce e s) = trace s @
    [HeaterPin False, LcdClear, LcdHome, LcdCursor 0 0, LcdPrint ''Finished!'',
     BeeperPin True, Sleep 2000, BeeperPin False, Sleep 1000,
     BeeperPin True, Sleep 2000, BeeperPin False, Sleep 1000,
     BeeperPin True, Sleep 2000, BeeperPin False,
     LcdCursor 0 1, LcdPrint ''Press any key...'']"
  by (simp add: announce_def Let_def emit_def beep_def clear_screen_def turn_off_def)

lemma completion_returns:
  assumes "completion e s = Some s'"
  shows "filament s' = None \<and> heating_stage s' = heating_stage s \<and> \<not> heater_is_on s' \<and>
    (\<exists>s5. await_confirm e (announce e s) = Some s5 \<and> s' = s5\<lparr>filament := None\<rparr>)"
proof -
  from assms obtain s5 where a: "await_confirm e (announce e s) = Some s5"
    and s': "s' = s5\<lparr>filament := None\<rparr>"
    by (auto simp: completion_def bind_eq_Some_conv)
  from await_confirm_returns[OF a] have "polls (announce e s) s5" by simp
  then show ?thesis using a s' by (auto simp: polls_def)
qed

lemma selection_Done:
  assumes "selection e s = Some r"
  shows "\<exists>s1. r = Done () s1 \<and> filament s1 \<noteq> None \<and>
    (if filament s = None then heating_stage s1 = Idle else s1 = s)"
proof (cases "filament s")
  case None
  from selection_returns[OF None assms] None show ?thesis by auto
next
  case (Some f)
  with assms show ?thesis by (auto simp: selection_def)
qed

lemma loop_cases:
  assumes "selection e s = Some (Done () s1)" and "filament s1 = Some f"
  shows "loop e s =
    (if heating_stage s1 = Working \<and> seconds s1 > time_sec f
     then map_option (Done ()) (completion e s1) else Some (control e s1))"
  using assms by (simp add: loop_def)

lemma loop_Done:
  assumes l: "loop e s = Some (Done () s')" and j: "between_iterations s"
  shows "between_iterations s' \<and>
    (filament s' = None \<longrightarrow> heating_stage s' = Working)"
proof -
  from l obtain r where sel: "selection e s = Some r"
    by (auto simp: loop_def split: option.splits)
  from selection_Done[OF sel] obtain s1 f where r: "r = Done () s1" and f: "filament s1 = Some f"
    and s1: "if filament s = None then heating_stage s1 = Idle else s1 = s"
    by auto
  note lc = loop_cases[OF sel[unfolded r] f]
  show ?thesis
  proof (cases "heating_stage s1 = Working \<and> seconds s1 > time_sec f")
    case True
    with l lc have "completion e s1 = Some s'" by auto
    from completion_returns[OF this] True show ?thesis
      by (auto simp: between_iterations_def)
  next
    case False
    with l lc have c: "control e s1 = Done () s'" by (auto split: if_splits)
    have "between_iterations s1 \<or> heating_stage s1 = Idle"
      using s1 j by (auto split: if_splits)
    from control_Done[OF c this] show ?thesis by auto
  qed
qed

subsection \<open>The states between iterations\<close>

lemma reachable_between_iterations: "reachable e s \<Longrightarrow> between_iterations s"
proof (induction rule: reachable.induct)
  case start
  show ?case
    by (simp add: between_iterations_def setup_board_def beep_def emit_def clear_screen_def
        turn_off_def boot_def)
next
  case (iterate s s')
  then show ?case using loop_Done by blast
next
  case (timer s)
  then show ?case by (simp add: between_iterations_def TIMER1_COMPA_vect_def)
next
  case (pin s)
  then show ?case by (simp add: between_iterations_def PCINT1_vect_def)
qed

lemma reachable_timer_steps:
  assumes "reachable e s"
  shows "reachable e (s\<lparr>seconds := seconds s + of_nat (Suc n), refresh_screen := True\<rparr>)"
proof (induction n)
  case 0
  from reachable.timer[OF assms] show ?case by (simp add: TIMER1_COMPA_vect_def)
next
  case (Suc n)
  from reachable.timer[OF Suc] show ?case
    by (simp add: TIMER1_COMPA_vect_def add.assoc)
qed

lemma setup_board_bench:
  "setup_board (bench xs c) boot =
    boot\<lparr>clock := 250,
         trace := [HeaterPin False, LcdInit, LcdBacklight, LcdClear, LcdHome,
                   LcdPrint ''Hello world!'', BeeperPin True, Sleep 250, BeeperPin False]\<rparr>"
proof -
  have "ticks e n s = s\<lparr>clock := clock s + n\<rparr>"
    if "\<And>t. \<not> pcint_at e t" "\<And>t. \<not> timer_at e t" for e n s
    using that by (induction n arbitrary: s) (simp_all add: tick_def Let_def)
  then show ?thesis
    by (simp add: setup_board_def beep_def delay_def emit_def clear_screen_def turn_off_def
        boot_def bench_def)
qed

lemma to_uint_bench [simp]:
  "to_uint (bench xs c) v = word_of_int (if v < 0 then \<lceil>v\<rceil> else \<lfloor>v\<rfloor>)"
  by (simp add: bench_def)

lemmas bench_run =
  selection_def choose_filament_def choose_loop.simps show_filament_def
  present_filament_def wait_for_action_def await_event_now await_event_later
  read_action_band await_release.simps await_pair.simps await_confirm.simps
  delay_bench band_of_def ENCODER_JITTER_def ENCODER_TIMEOUT_def millis_def
  MIN_IDX_def MAX_IDX_eq turn_off_def turn_on_def clear_screen_def emit_def reset_timer_def
  loop_def control_def query_sensor_def set_heater_state_def update_screen_def
  print_min_sec_def completion_def announce_def beep_def panic_def
  DEVICE_DISCONNECTED_C_def filaments_def HOURS_def Let_def word_le_nat_alt word_less_nat_alt

lemma session_over_reachable: "reachable hot_bench session_over"
proof -
  let ?s0 = "boot\<lparr>clock := 250,
         trace := [HeaterPin False, LcdInit, LcdBacklight, LcdClear, LcdHome,
                   LcdPrint ''Hello world!'', BeeperPin True, Sleep 250, BeeperPin False]\<rparr>"
  let ?s1 = "\<lparr>filament = Some \<lparr>name = ''PLA'', temp = 45, time_sec = 21600\<rparr>,
       refresh_screen = False, seconds = 0, heater_is_on = False,
       event_on_encoder = False, heating_stage = Working, clock = 256,
       reads = 2, queries = 1,
       trace =
         [HeaterPin False, LcdInit, LcdBacklight, LcdClear, LcdHome,
          LcdPrint ''Hello world!'', BeeperPin True, Sleep 250,
          BeeperPin False, HeaterPin False, LcdClear, LcdHome,
          LcdCursor 0 0, LcdPrint ''PLA'', LcdPrint '' ?   '',
          LcdCursor 0 1, LcdPrintNum 6, LcdPrint '' hours at '',
          LcdPrintNum 45, LcdPrint ''*      '', Sleep 1, Sleep 5, LcdClear,
          LcdHome, HeaterPin False]\<rparr>"
  have r0: "reachable hot_bench ?s0"
    using reachable.start[of hot_bench] by (simp add: hot_bench_def setup_board_bench)
  have l1: "loop hot_bench ?s0 = Some (Done () ?s1)"
    by (simp add: hot_bench_def boot_def bench_run)
  have r1: "reachable hot_bench ?s1"
    using r0 l1 by (rule reachable.iterate)
  from reachable_timer_steps[OF r1, of 21600]
  have r2: "reachable hot_bench (?s1\<lparr>seconds := 21601, refresh_screen := True\<rparr>)"
    by simp
  have l2: "loop hot_bench (?s1\<lparr>seconds := 21601, refresh_screen := True\<rparr>) =
      Some (Done () session_over)"
    by (simp add: hot_bench_def session_over_def bench_run)
  from r2 l2 show ?thesis by (rule reachable.iterate)
qed

lemma set_heater_state_selected:
  assumes "filament s = Some f"
  shows "\<exists>s'. set_heater_state t s = Done () s' \<and> filament s' = Some f"
  using assms
  by (simp add: set_heater_state_def turn_off_def turn_on_def reset_timer_def Let_def)

lemma query_sensor_plausible:
  assumes "celsius e (queries s) \<noteq> DEVICE_DISCONNECTED_C"
    and "2 \<le> (ucast (to_uint e (celsius e (queries s)) AND 0xFF) :: 8 word)"
    and "(ucast (to_uint e (celsius e (queries s)) AND 0xFF) :: 8 word) \<le> 119"
  shows "query_sensor e s =
    Done (ucast (to_uint e (celsius e (queries s)) AND 0xFF)) (s\<lparr>queries := queries s + 1\<rparr>)"
  using assms by (auto simp: query_sensor_def Let_def word_le_nat_alt)

lemma control_outcome:
  assumes "filament s = Some f"
  shows "control e s \<noteq> Fault \<and> control e s \<noteq> Halt ''Heater state.'' h"
proof (cases "query_sensor e s")
  case (Halt x h')
  then have "x \<noteq> ''Heater state.''"
    by (auto simp: query_sensor_def panic_def Let_def split: if_splits)
  with Halt show ?thesis by (simp add: control_def)
next
  case Fault
  then show ?thesis by (auto simp: query_sensor_def panic_def Let_def split: if_splits)
next
  case (Done t s1)
  then have f1: "filament s1 = Some f"
    using assms by (auto dest: query_sensor_Done)
  from set_heater_state_selected[OF f1, of t] obtain s2 where
    h: "set_heater_state t s1 = Done () s2" and f2: "filament s2 = Some f"
    by blast
  have "update_screen t (s2\<lparr>refresh_screen := False\<rparr>) \<noteq> Fault \<and>
        update_screen t (s2\<lparr>refresh_screen := False\<rparr>) \<noteq> Halt ''Heater state.'' h"
    using f2 by (simp add: update_screen_def panic_def Let_def)
  with Done h show ?thesis by (simp add: control_def)
qed

lemma loop_outcome:
  assumes "loop e s = Some r"
  shows "r \<noteq> Fault \<and> r \<noteq> Halt ''Heater state.'' h"
proof -
  from assms obtain r0 where sel: "selection e s = Some r0"
    by (auto simp: loop_def split: option.splits)
  from selection_Done[OF sel] obtain s1 f where r0: "r0 = Done () s1" and f: "filament s1 = Some f"
    by auto
  from loop_cases[OF sel[unfolded r0] f] assms control_outcome[OF f, of e h]
  show ?thesis by (cases "completion e s1") (auto split: if_splits)
qed


subsection \<open>The main loop: results\<close>

text \<open>
  C3 (as amended).  In every state between two iterations of the main loop: if no
  filament is selected, the stage is not \<open>PreHeating\<close> and the heater is off (the stage
  can be \<open>Working\<close> there, see the counterexample).  The selection block of the next
  iteration, when it returns, returns with a filament selected, so that the completion
  test and the heater update always run with one: \<open>loop\<close> never dereferences a null
  filament and never ends in the panic "Heater state.".  An iteration that returns with
  no filament selected returns in stage \<open>Working\<close> with the heater off.
\<close>

theorem reachable_selection_invariant:
  assumes "reachable e s"
  shows "(filament s = None \<longrightarrow> heating_stage s \<noteq> PreHeating \<and> \<not> heater_is_on s) \<and>
    (\<forall>r. selection e s = Some r \<longrightarrow> (\<exists>s1. r = Done () s1 \<and> filament s1 \<noteq> None)) \<and>
    (\<forall>r h. loop e s = Some r \<longrightarrow> r \<noteq> Fault \<and> r \<noteq> Halt ''Heater state.'' h) \<and>
    (\<forall>s'. loop e s = Some (Done () s') \<and> filament s' = None \<longrightarrow>
       heating_stage s' = Working \<and> \<not> heater_is_on s')"
proof (intro conjI allI impI)
  from reachable_between_iterations[OF assms]
  show "heating_stage s \<noteq> PreHeating" "\<not> heater_is_on s" if "filament s = None"
    using that by (simp_all add: between_iterations_def)
next
  fix r assume "selection e s = Some r"
  from selection_Done[OF this] show "\<exists>s1. r = Done () s1 \<and> filament s1 \<noteq> None" by blast
next
  fix r h assume "loop e s = Some r"
  from loop_outcome[OF this] show "r \<noteq> Fault" "r \<noteq> Halt ''Heater state.'' h" by simp_all
next
  fix s' assume l: "loop e s = Some (Done () s') \<and> filament s' = None"
  with loop_Done[OF _ reachable_between_iterations[OF assms], of e s']
  show "heating_stage s' = Working" "\<not> heater_is_on s'"
    by (simp_all add: between_iterations_def)
qed

theorem reachable_selection_invariant_witness:
  "reachable hot_bench session_over \<and> filament session_over = None \<and>
   heating_stage session_over \<noteq> PreHeating \<and> \<not> heater_is_on session_over"
  using reachable_selection_invariant[OF session_over_reachable] session_over_reachable
  by (simp add: session_over_def)

text \<open>
  The specification's wording fails: at the end of a session on the bench, the state in which
  the iteration returns is in stage \<open>Working\<close> with no filament selected.
\<close>

theorem stage_without_selection_counterexample:
  "reachable hot_bench session_over \<and> heating_stage session_over \<noteq> Idle \<and>
   filament session_over = None"
  using session_over_reachable by (simp add: session_over_def)


lemma drying_over_run:
  "loop press_confirm drying_over = Some (Done () drying_confirmed)"
  by (simp add: press_confirm_def drying_over_def drying_confirmed_def bench_run)

lemma awaiting_polls: "awaiting e s0 s \<Longrightarrow> polls s0 s"
  by (induction rule: awaiting.induct) (auto intro: polls_trans wait_for_action_polls)

lemma awaiting_loop_head: "awaiting e s0 s \<Longrightarrow> await_confirm e s0 = await_confirm e s"
  by (induction rule: awaiting.induct) (simp_all add: await_confirm_ignores)

lemma await_event_needs_event:
  assumes "await_event e s = Some s'"
  shows "event_on_encoder s \<or> (\<exists>t\<ge>clock s. pcint_at e t)"
proof -
  let ?P = "\<lambda>(e::env) s (s'::state). event_on_encoder s \<or> (\<exists>t\<ge>clock s. pcint_at e t)"
  show ?thesis
  proof (rule await_event.raw_induct[where P = ?P, OF _ assms])
    fix f :: "env \<Rightarrow> state \<Rightarrow> state option" and e s y
    assume IH: "\<And>s b y. f s b = Some y \<Longrightarrow> ?P s b y"
      and body: "(if \<not> event_on_encoder s then f e (delay e 1 s) else Some s) = Some y"
    show "?P e s y"
    proof (cases "event_on_encoder s")
      case True
      then show ?thesis by simp
    next
      case False
      with body have "f e (delay e 1 s) = Some y" by simp
      from IH[OF this] have "event_on_encoder (delay e 1 s) \<or>
          (\<exists>t\<ge>clock s + 1. pcint_at e t)"
        by simp
      then show ?thesis
      proof
        assume "event_on_encoder (delay e 1 s)"
        with False obtain t where "clock s \<le> t" "pcint_at e t"
          unfolding delay_event by blast
        then show ?thesis by blast
      next
        assume "\<exists>t\<ge>clock s + 1. pcint_at e t"
        then obtain t where "clock s + 1 \<le> t" "pcint_at e t" by blast
        then have "clock s \<le> t \<and> pcint_at e t" by simp
        then show ?thesis by blast
      qed
    qed
  qed
qed

lemma loop_unattended: "loop unattended drying_over_alone = None"
proof -
  have quiet: "\<not> pcint_at unattended t" for t
    by (simp add: unattended_def)
  have flag: "\<not> event_on_encoder (announce unattended drying_over_alone)"
    by (simp add: announce_def Let_def emit_def beep_def clear_screen_def turn_off_def
        delay_event quiet drying_over_alone_def drying_over_def)
  have "await_event unattended (announce unattended drying_over_alone) = None"
  proof (cases "await_event unattended (announce unattended drying_over_alone)")
    case None
    then show ?thesis .
  next
    case (Some s')
    from await_event_needs_event[OF this] flag quiet show ?thesis by simp
  qed
  then have "wait_for_action unattended (announce unattended drying_over_alone) = None"
    by (simp add: wait_for_action_def)
  then have "await_confirm unattended (announce unattended drying_over_alone) = None"
    by (subst await_confirm.simps) simp
  then show ?thesis
    by (simp add: loop_def selection_def completion_def drying_over_alone_def drying_over_def
        filaments_def HOURS_def word_less_nat_alt)
qed

text \<open>
  C4 (as amended).  Let \<open>loop\<close> begin with a filament selected, in stage \<open>Working\<close>, with
  the seconds counter above the filament's drying time.  Then, whether or not the button
  is ever pressed, the iteration is the announcement followed by the wait for the button:
  the announcement switches the heater off, shows the message, gives three beeps of two
  seconds one second apart and shows the prompt, and at every head of the waiting loop
  the heater is off, the filament is still selected, and nothing but sleeps has followed
  the announcement.  An action other than a press is dropped and the wait goes on; a
  press ends the iteration, which then returns with no filament selected.  The stage is
  still \<open>Working\<close> when the iteration returns: it becomes \<open>Idle\<close> in the next iteration,
  when the selection block returns.
\<close>

theorem loop_completion:
  assumes "filament s = Some f" and "heating_stage s = Working" and "seconds s > time_sec f"
  shows "awaiting e (announce e s) (announce e s) \<and>
    (\<forall>s1. awaiting e (announce e s) s1 \<longrightarrow>
       loop e s = map_option (\<lambda>s5. Done () (s5\<lparr>filament := None\<rparr>)) (await_confirm e s1) \<and>
       \<not> heater_is_on s1 \<and> filament s1 = Some f \<and> heating_stage s1 = Working \<and>
       (\<exists>ds. trace s1 = trace s @
           [HeaterPin False, LcdClear, LcdHome, LcdCursor 0 0, LcdPrint ''Finished!'',
            BeeperPin True, Sleep 2000, BeeperPin False, Sleep 1000,
            BeeperPin True, Sleep 2000, BeeperPin False, Sleep 1000,
            BeeperPin True, Sleep 2000, BeeperPin False,
            LcdCursor 0 1, LcdPrint ''Press any key...''] @ map Sleep ds) \<and>
       (\<forall>a s2. wait_for_action e s1 = Some (a, s2) \<longrightarrow>
          (if a = ActionConfirm then loop e s = Some (Done () (s2\<lparr>filament := None\<rparr>))
           else awaiting e (announce e s) s2))) \<and>
    trace (announce e s) = trace s @
           [HeaterPin False, LcdClear, LcdHome, LcdCursor 0 0, LcdPrint ''Finished!'',
            BeeperPin True, Sleep 2000, BeeperPin False, Sleep 1000,
            BeeperPin True, Sleep 2000, BeeperPin False, Sleep 1000,
            BeeperPin True, Sleep 2000, BeeperPin False,
            LcdCursor 0 1, LcdPrint ''Press any key...''] \<and>
    (\<forall>r. loop e s = Some r \<longrightarrow>
      (\<exists>s5 sc ds. r = Done () (s5\<lparr>filament := None\<rparr>) \<and>
         heating_stage s5 = Working \<and> \<not> heater_is_on s5 \<and>
         trace s5 = trace s @
           [HeaterPin False, LcdClear, LcdHome, LcdCursor 0 0, LcdPrint ''Finished!'',
            BeeperPin True, Sleep 2000, BeeperPin False, Sleep 1000,
            BeeperPin True, Sleep 2000, BeeperPin False, Sleep 1000,
            BeeperPin True, Sleep 2000, BeeperPin False,
            LcdCursor 0 1, LcdPrint ''Press any key...''] @ map Sleep ds \<and>
         polls (announce e s) sc \<and> wait_for_action e sc = Some (ActionConfirm, s5))) \<and>
    (\<forall>a s1. wait_for_action e (announce e s) = Some (a, s1) \<longrightarrow>
       loop e s =
         (if a = ActionConfirm then Some (Done () (s1\<lparr>filament := None\<rparr>))
          else map_option (\<lambda>s5. Done () (s5\<lparr>filament := None\<rparr>)) (await_confirm e s1))) \<and>
    (\<forall>s' r. loop e s = Some (Done () s') \<and> selection e s' = Some r \<longrightarrow>
       (\<exists>s''. r = Done () s'' \<and> heating_stage s'' = Idle \<and> filament s'' \<noteq> None))"
proof -
  have sel: "selection e s = Some (Done () s)"
    using assms(1) by (simp add: selection_skipped)
  have l: "loop e s = map_option (Done ()) (completion e s)"
    using loop_cases[OF sel assms(1)] assms(2,3) by simp
  have l': "loop e s =
      map_option (\<lambda>s5. Done () (s5\<lparr>filament := None\<rparr>)) (await_confirm e (announce e s))"
    unfolding l by (cases "await_confirm e (announce e s)") (simp_all add: completion_def)
  have head: "loop e s = map_option (\<lambda>s5. Done () (s5\<lparr>filament := None\<rparr>)) (await_confirm e s1) \<and>
       \<not> heater_is_on s1 \<and> filament s1 = Some f \<and> heating_stage s1 = Working \<and>
       (\<exists>ds. trace s1 = trace s @
           [HeaterPin False, LcdClear, LcdHome, LcdCursor 0 0, LcdPrint ''Finished!'',
            BeeperPin True, Sleep 2000, BeeperPin False, Sleep 1000,
            BeeperPin True, Sleep 2000, BeeperPin False, Sleep 1000,
            BeeperPin True, Sleep 2000, BeeperPin False,
            LcdCursor 0 1, LcdPrint ''Press any key...''] @ map Sleep ds) \<and>
       (\<forall>a s2. wait_for_action e s1 = Some (a, s2) \<longrightarrow>
          (if a = ActionConfirm then loop e s = Some (Done () (s2\<lparr>filament := None\<rparr>))
           else awaiting e (announce e s) s2))"
    if aw: "awaiting e (announce e s) s1" for s1
  proof -
    from awaiting_loop_head[OF aw] l'
    have eq: "loop e s = map_option (\<lambda>s5. Done () (s5\<lparr>filament := None\<rparr>)) (await_confirm e s1)"
      by simp
    from awaiting_polls[OF aw] obtain ds where
      p: "\<not> heater_is_on s1" "filament s1 = Some f" "heating_stage s1 = Working"
         "trace s1 = trace (announce e s) @ map Sleep ds"
      using assms(1,2) by (auto simp: polls_def)
    have step: "if a = ActionConfirm then loop e s = Some (Done () (s2\<lparr>filament := None\<rparr>))
           else awaiting e (announce e s) s2"
      if "wait_for_action e s1 = Some (a, s2)" for a s2
    proof (cases "a = ActionConfirm")
      case True
      with that have "await_confirm e s1 = Some s2" by (simp add: await_confirm_accepts)
      with eq True show ?thesis by simp
    next
      case False
      with aw that show ?thesis by (auto intro: awaiting.ignore)
    qed
    have tr: "\<exists>ds. trace s1 = trace s @
           [HeaterPin False, LcdClear, LcdHome, LcdCursor 0 0, LcdPrint ''Finished!'',
            BeeperPin True, Sleep 2000, BeeperPin False, Sleep 1000,
            BeeperPin True, Sleep 2000, BeeperPin False, Sleep 1000,
            BeeperPin True, Sleep 2000, BeeperPin False,
            LcdCursor 0 1, LcdPrint ''Press any key...''] @ map Sleep ds"
      using p(4) by (intro exI[of _ ds]) (simp add: trace_announce)
    from step have step': "\<forall>a s2. wait_for_action e s1 = Some (a, s2) \<longrightarrow>
          (if a = ActionConfirm then loop e s = Some (Done () (s2\<lparr>filament := None\<rparr>))
           else awaiting e (announce e s) s2)"
      by blast
    from eq p(1-3) tr step' show ?thesis by (intro conjI)
  qed
  have first: "\<exists>s5 sc ds. r = Done () (s5\<lparr>filament := None\<rparr>) \<and>
         heating_stage s5 = Working \<and> \<not> heater_is_on s5 \<and>
         trace s5 = trace s @
           [HeaterPin False, LcdClear, LcdHome, LcdCursor 0 0, LcdPrint ''Finished!'',
            BeeperPin True, Sleep 2000, BeeperPin False, Sleep 1000,
            BeeperPin True, Sleep 2000, BeeperPin False, Sleep 1000,
            BeeperPin True, Sleep 2000, BeeperPin False,
            LcdCursor 0 1, LcdPrint ''Press any key...''] @ map Sleep ds \<and>
         polls (announce e s) sc \<and> wait_for_action e sc = Some (ActionConfirm, s5)"
    if "loop e s = Some r" for r
  proof -
    from that l obtain s' where c: "completion e s = Some s'" and r: "r = Done () s'"
      by auto
    from completion_returns[OF c] obtain s5 where
      a: "await_confirm e (announce e s) = Some s5" and s': "s' = s5\<lparr>filament := None\<rparr>"
      by blast
    from await_confirm_returns[OF a] obtain sc where p: "polls (announce e s) s5"
      and sc: "polls (announce e s) sc" "wait_for_action e sc = Some (ActionConfirm, s5)"
      by blast
    from p obtain ds where "trace s5 = trace (announce e s) @ map Sleep ds"
      "heating_stage s5 = heating_stage s" "\<not> heater_is_on s5"
      by (auto simp: polls_def)
    with r s' sc assms(2) show ?thesis
      by (auto simp: trace_announce)
  qed
  have second: "loop e s =
         (if a = ActionConfirm then Some (Done () (s1\<lparr>filament := None\<rparr>))
          else map_option (\<lambda>s5. Done () (s5\<lparr>filament := None\<rparr>)) (await_confirm e s1))"
    if "wait_for_action e (announce e s) = Some (a, s1)" for a s1
  proof (cases "a = ActionConfirm")
    case True
    with that have "await_confirm e (announce e s) = Some s1"
      by (simp add: await_confirm_accepts)
    with True l' show ?thesis by simp
  next
    case False
    with that have "await_confirm e (announce e s) = await_confirm e s1"
      by (simp add: await_confirm_ignores)
    with False l' show ?thesis by simp
  qed
  have third: "\<exists>s''. r = Done () s'' \<and> heating_stage s'' = Idle \<and> filament s'' \<noteq> None"
    if "loop e s = Some (Done () s') \<and> selection e s' = Some r" for s' r
  proof -
    from that first[of "Done () s'"] have "filament s' = None" by auto
    with selection_Done[of e s' r] that show ?thesis by auto
  qed
  have heads: "\<forall>s1. awaiting e (announce e s) s1 \<longrightarrow>
       loop e s = map_option (\<lambda>s5. Done () (s5\<lparr>filament := None\<rparr>)) (await_confirm e s1) \<and>
       \<not> heater_is_on s1 \<and> filament s1 = Some f \<and> heating_stage s1 = Working \<and>
       (\<exists>ds. trace s1 = trace s @
           [HeaterPin False, LcdClear, LcdHome, LcdCursor 0 0, LcdPrint ''Finished!'',
            BeeperPin True, Sleep 2000, BeeperPin False, Sleep 1000,
            BeeperPin True, Sleep 2000, BeeperPin False, Sleep 1000,
            BeeperPin True, Sleep 2000, BeeperPin False,
            LcdCursor 0 1, LcdPrint ''Press any key...''] @ map Sleep ds) \<and>
       (\<forall>a s2. wait_for_action e s1 = Some (a, s2) \<longrightarrow>
          (if a = ActionConfirm then loop e s = Some (Done () (s2\<lparr>filament := None\<rparr>))
           else awaiting e (announce e s) s2))"
    using head by blast
  from first have first': "\<forall>r. loop e s = Some r \<longrightarrow>
      (\<exists>s5 sc ds. r = Done () (s5\<lparr>filament := None\<rparr>) \<and>
         heating_stage s5 = Working \<and> \<not> heater_is_on s5 \<and>
         trace s5 = trace s @
           [HeaterPin False, LcdClear, LcdHome, LcdCursor 0 0, LcdPrint ''Finished!'',
            BeeperPin True, Sleep 2000, BeeperPin False, Sleep 1000,
            BeeperPin True, Sleep 2000, BeeperPin False, Sleep 1000,
            BeeperPin True, Sleep 2000, BeeperPin False,
            LcdCursor 0 1, LcdPrint ''Press any key...''] @ map Sleep ds \<and>
         polls (announce e s) sc \<and> wait_for_action e sc = Some (ActionConfirm, s5))"
    by blast
  from second have second': "\<forall>a s1. wait_for_action e (announce e s) = Some (a, s1) \<longrightarrow>
       loop e s =
         (if a = ActionConfirm then Some (Done () (s1\<lparr>filament := None\<rparr>))
          else map_option (\<lambda>s5. Done () (s5\<lparr>filament := None\<rparr>)) (await_confirm e s1))"
    by blast
  from third have third': "\<forall>s' r. loop e s = Some (Done () s') \<and> selection e s' = Some r \<longrightarrow>
       (\<exists>s''. r = Done () s'' \<and> heating_stage s'' = Idle \<and> filament s'' \<noteq> None)"
    by blast
  from awaiting.arrive[of e "announce e s"] heads trace_announce[of e s] first' second' third'
  show ?thesis by (intro conjI)
qed


theorem loop_completion_witness:
  "filament drying_over = Some (filaments ! 1) \<and> heating_stage drying_over = Working \<and>
   seconds drying_over > time_sec (filaments ! 1) \<and>
   (\<exists>s5. loop press_confirm drying_over = Some (Done () (s5\<lparr>filament := None\<rparr>)) \<and>
      heating_stage s5 = Working \<and> \<not> heater_is_on s5) \<and>
   filament drying_over_alone = Some (filaments ! 1) \<and>
   heating_stage drying_over_alone = Working \<and>
   seconds drying_over_alone > time_sec (filaments ! 1) \<and>
   heater_is_on drying_over_alone \<and>
   loop unattended drying_over_alone = None \<and>
   awaiting unattended (announce unattended drying_over_alone)
     (announce unattended drying_over_alone) \<and>
   \<not> heater_is_on (announce unattended drying_over_alone) \<and>
   trace (announce unattended drying_over_alone) =
     [HeaterPin False, LcdClear, LcdHome, LcdCursor 0 0, LcdPrint ''Finished!'',
      BeeperPin True, Sleep 2000, BeeperPin False, Sleep 1000,
      BeeperPin True, Sleep 2000, BeeperPin False, Sleep 1000,
      BeeperPin True, Sleep 2000, BeeperPin False,
      LcdCursor 0 1, LcdPrint ''Press any key...'']"
proof -
  have h: "filament drying_over = Some (filaments ! 1)" "heating_stage drying_over = Working"
    "seconds drying_over > time_sec (filaments ! 1)"
    by (simp_all add: drying_over_def filaments_def HOURS_def)
  have h': "filament drying_over_alone = Some (filaments ! 1)"
    "heating_stage drying_over_alone = Working"
    "seconds drying_over_alone > time_sec (filaments ! 1)"
    using h by (simp_all add: drying_over_alone_def)
  have on: "heater_is_on drying_over_alone"
    by (simp add: drying_over_alone_def drying_over_def)
  from loop_completion[OF h, of press_confirm]
  have "\<forall>r. loop press_confirm drying_over = Some r \<longrightarrow>
      (\<exists>s5. r = Done () (s5\<lparr>filament := None\<rparr>) \<and>
         heating_stage s5 = Working \<and> \<not> heater_is_on s5)"
    by blast
  with drying_over_run
  have pressed: "\<exists>s5. loop press_confirm drying_over = Some (Done () (s5\<lparr>filament := None\<rparr>)) \<and>
      heating_stage s5 = Working \<and> \<not> heater_is_on s5"
    by simp
  from loop_completion[OF h', of unattended]
  have alone: "awaiting unattended (announce unattended drying_over_alone)
       (announce unattended drying_over_alone)"
    "\<forall>s1. awaiting unattended (announce unattended drying_over_alone) s1 \<longrightarrow> \<not> heater_is_on s1"
    "trace (announce unattended drying_over_alone) = trace drying_over_alone @
     [HeaterPin False, LcdClear, LcdHome, LcdCursor 0 0, LcdPrint ''Finished!'',
      BeeperPin True, Sleep 2000, BeeperPin False, Sleep 1000,
      BeeperPin True, Sleep 2000, BeeperPin False, Sleep 1000,
      BeeperPin True, Sleep 2000, BeeperPin False,
      LcdCursor 0 1, LcdPrint ''Press any key...'']"
    by blast+
  from alone(1,2) have off: "\<not> heater_is_on (announce unattended drying_over_alone)" by blast
  have tr: "trace drying_over_alone = []"
    by (simp add: drying_over_alone_def drying_over_def)
  from h h' on pressed loop_unattended alone(1) off alone(3)[unfolded tr] show ?thesis
    by simp
qed

text \<open>
  The specification's wording fails in its last step: when the iteration returns after the
  press, the stage is \<open>Working\<close>, not \<open>Idle\<close>.
\<close>

theorem stage_after_completion_counterexample:
  "loop press_confirm drying_over = Some (Done () drying_confirmed) \<and>
   filament drying_confirmed = None \<and> heating_stage drying_confirmed \<noteq> Idle"
  using drying_over_run by (simp add: drying_confirmed_def)


text \<open>
  C5.  In a state between two iterations with stage \<open>PreHeating\<close> and the seconds counter
  at 3600 or more, let the probe give a plausible reading that is not above the
  filament's temperature (so that \<open>Working\<close> is not entered).  Then the iteration ends in
  the fail-safe state with the reason "Preheating.".
\<close>

theorem preheat_timeout:
  fixes e :: env and s :: state
  defines "t \<equiv> (ucast (to_uint e (celsius e (queries s)) AND 0xFF) :: 8 word)"
  assumes "reachable e s" and "heating_stage s = PreHeating" and "seconds s \<ge> 3600"
    and "filament s = Some f"
    and "celsius e (queries s) \<noteq> DEVICE_DISCONNECTED_C" and "2 \<le> t" and "t \<le> 119"
    and "t \<le> temp f"
  shows "\<exists>r. loop e s = Some r \<and> halts_with r ''Preheating.''"
proof -
  from reachable_between_iterations[OF assms(2)] assms(3,4)
  have refresh: "refresh_screen s" by (simp add: between_iterations_def)
  have sel: "selection e s = Some (Done () s)"
    using assms(5) by (simp add: selection_skipped)
  have l: "loop e s = Some (control e s)"
    using loop_cases[OF sel assms(5)] assms(3) by simp
  let ?s1 = "s\<lparr>queries := queries s + 1\<rparr>"
  have q: "query_sensor e s = Done t ?s1"
    using query_sensor_plausible[of e s] assms(6-8) by (simp add: t_def)
  have h: "set_heater_state t ?s1 = Done () (turn_on ?s1)"
    using assms(3,5,9) by (simp add: set_heater_state_def Let_def turn_on_def not_less)
  have u: "update_screen t ((turn_on ?s1)\<lparr>refresh_screen := False\<rparr>) =
      panic ''Preheating.''
        (emit [LcdPrint ''Preheating '']
          (emit ([LcdCursor 0 0, LcdPrint (name f), LcdPrint '' '',
                  LcdPrintNum (unat (temp f)), LcdPrint '' / '',
                  LcdPrintNum (unat t), LcdPrint ''* '']
                 @ [LcdPrint ''H''] @ [LcdPrint ''      '', LcdCursor 0 1])
            ((turn_on ?s1)\<lparr>refresh_screen := False\<rparr>)))"
    using assms(3,4,5) by (simp add: update_screen_def Let_def turn_on_def emit_def)
  have "control e s = panic ''Preheating.''
        (emit [LcdPrint ''Preheating '']
          (emit ([LcdCursor 0 0, LcdPrint (name f), LcdPrint '' '',
                  LcdPrintNum (unat (temp f)), LcdPrint '' / '',
                  LcdPrintNum (unat t), LcdPrint ''* '']
                 @ [LcdPrint ''H''] @ [LcdPrint ''      '', LcdCursor 0 1])
            ((turn_on ?s1)\<lparr>refresh_screen := False\<rparr>)))"
    using q h u refresh by (simp add: control_def turn_on_def)
  with l show ?thesis by (simp add: halts_with_panic)
qed

theorem preheat_timeout_witness:
  "\<exists>s. reachable cold_bench s \<and> heating_stage s = PreHeating \<and> seconds s \<ge> 3600 \<and>
     filament s = Some (filaments ! 0) \<and>
     (\<exists>r. loop cold_bench s = Some r \<and> halts_with r ''Preheating.'')"
proof -
  let ?s0 = "boot\<lparr>clock := 250,
         trace := [HeaterPin False, LcdInit, LcdBacklight, LcdClear, LcdHome,
                   LcdPrint ''Hello world!'', BeeperPin True, Sleep 250, BeeperPin False]\<rparr>"
  let ?s1 = "\<lparr>filament = Some \<lparr>name = ''PLA'', temp = 45, time_sec = 21600\<rparr>,
       refresh_screen = False, seconds = 0, heater_is_on = True,
       event_on_encoder = False, heating_stage = PreHeating, clock = 256,
       reads = 2, queries = 1,
       trace =
         [HeaterPin False, LcdInit, LcdBacklight, LcdClear, LcdHome,
          LcdPrint ''Hello world!'', BeeperPin True, Sleep 250,
          BeeperPin False, HeaterPin False, LcdClear, LcdHome,
          LcdCursor 0 0, LcdPrint ''PLA'', LcdPrint '' ?   '',
          LcdCursor 0 1, LcdPrintNum 6, LcdPrint '' hours at '',
          LcdPrintNum 45, LcdPrint ''*      '', Sleep 1, Sleep 5, LcdClear,
          LcdHome, HeaterPin True]\<rparr>"
  let ?s2 = "?s1\<lparr>seconds := 3600, refresh_screen := True\<rparr>"
  have r0: "reachable cold_bench ?s0"
    using reachable.start[of cold_bench] by (simp add: cold_bench_def setup_board_bench)
  have l1: "loop cold_bench ?s0 = Some (Done () ?s1)"
    by (simp add: cold_bench_def boot_def bench_run)
  have r1: "reachable cold_bench ?s1"
    using r0 l1 by (rule reachable.iterate)
  from reachable_timer_steps[OF r1, of 3599]
  have r2: "reachable cold_bench ?s2" by simp
  have "\<exists>r. loop cold_bench ?s2 = Some r \<and> halts_with r ''Preheating.''"
  proof (rule preheat_timeout[OF r2])
    show "heating_stage ?s2 = PreHeating" by simp
    show "3600 \<le> seconds ?s2" by simp
    show "filament ?s2 = Some (filaments ! 0)" by (simp add: filaments_def HOURS_def)
    show "celsius cold_bench (queries ?s2) \<noteq> DEVICE_DISCONNECTED_C"
      by (simp add: cold_bench_def DEVICE_DISCONNECTED_C_def)
    show "2 \<le> (ucast (to_uint cold_bench (celsius cold_bench (queries ?s2)) AND 0xFF) :: 8 word)"
      by (simp add: cold_bench_def word_le_nat_alt)
    show "(ucast (to_uint cold_bench (celsius cold_bench (queries ?s2)) AND 0xFF) :: 8 word) \<le> 119"
      by (simp add: cold_bench_def word_le_nat_alt)
    show "(ucast (to_uint cold_bench (celsius cold_bench (queries ?s2)) AND 0xFF) :: 8 word)
        \<le> temp (filaments ! 0)"
      by (simp add: cold_bench_def filaments_def word_le_nat_alt)
  qed
  moreover have "heating_stage ?s2 = PreHeating \<and> seconds ?s2 \<ge> 3600 \<and>
      filament ?s2 = Some (filaments ! 0)"
    by (simp add: filaments_def HOURS_def)
  ultimately show ?thesis using r2 by blast
qed

end
